theory Spec2Isabelle
  imports Complex_Main "HOL-Library.Sublist" "HOL-Library.Multiset"
begin

section \<open>Python text and values\<close>

text \<open>
  Text is a list of bytes. The three glyphs of \<open>pysdd/io.py\<close> that lie outside ASCII are
  kept as their UTF-8 encodings (the file is declared \<open>coding: UTF-8\<close>): the label of the
  true node, U+27D9; the label of the false node, U+27D8; the label of a product node,
  U+00D7.
\<close>

definition true_glyph :: string where
  "true_glyph = [CHR 0xE2, CHR 0x9F, CHR 0x99]"

definition false_glyph :: string where
  "false_glyph = [CHR 0xE2, CHR 0x9F, CHR 0x98]"

definition times_glyph :: string where
  "times_glyph = [CHR 0xC3, CHR 0x97]"

text \<open>Decimal formatting of integers, as \<open>str\<close> and the f-string \<open>{n}\<close> do it.\<close>

definition digit :: "nat \<Rightarrow> char" where
  "digit d = ''0123456789'' ! (d mod 10)"

fun str_nat :: "nat \<Rightarrow> string" where
  "str_nat n = (if n < 10 then [digit n] else str_nat (n div 10) @ [digit (n mod 10)])"

declare str_nat.simps [simp del]

definition str_int :: "int \<Rightarrow> string" where
  "str_int i = (if i < 0 then ''-'' @ str_nat (nat (- i)) else str_nat (nat i))"

text \<open>\<open>sep.join(xs)\<close>.\<close>

fun join :: "string \<Rightarrow> string list \<Rightarrow> string" where
  "join sep [] = []"
| "join sep [x] = x"
| "join sep (x # y # ys) = x @ sep @ join sep (y # ys)"

text \<open>
  A node name is a Python value that is either text (a glyph, \<open>'+'\<close>, a mapped name) or
  an integer (a literal, a variable). \<open>format\<close> is the f-string \<open>{name}\<close>.
\<close>

datatype pyval = PStr string | PInt int

fun format :: "pyval \<Rightarrow> string" where
  "format (PStr s) = s"
| "format (PInt i) = str_int i"

text \<open>\<open>litnamemap\<close> is a dict; \<open>dict_get m k d\<close> is \<open>m.get(k, d)\<close>.\<close>

type_synonym litnamemap = "pyval \<rightharpoonup> pyval"

definition dict_get :: "('k \<rightharpoonup> 'v) \<Rightarrow> 'k \<Rightarrow> 'v \<Rightarrow> 'v" where
  "dict_get m k d = (case m k of Some v \<Rightarrow> v | None \<Rightarrow> d)"

text \<open>The exceptions the exporters can raise.\<close>

datatype py_error = ValueError string | TypeError | AttributeError

section \<open>Data model\<close>

text \<open>
  A vtree node answers \<open>position()\<close>, \<open>var()\<close>, \<open>left()\<close> and \<open>right()\<close>; the last two
  may be \<open>None\<close>.
\<close>

datatype vtree =
  Vtree (position: nat) (var: int) (left: "vtree option") (right: "vtree option")

text \<open>
  The class \<open>SddNode\<close> lives in \<open>pysdd/sdd\<close>, outside the files at hand; the exporter
  uses it through \<open>id\<close>, \<open>is_false()\<close>, \<open>is_true()\<close>, \<open>is_literal()\<close>,
  \<open>is_decision()\<close>, \<open>literal\<close>, \<open>elements()\<close> and \<open>vtree()\<close>, and keeps nodes in a
  Python set. A node is modelled as the tuple of these answers. The kind of a node decides
  the four predicates; \<open>KOther\<close> is a node for which all four answer \<open>False\<close>. A node
  shared by several parents is the same value occurring under each of them.
  \<open>io.py\<close> keeps the visited nodes themselves in its set and tests
  \<open>node in visited\<close>; the model keeps their ids and tests the id. The two tests agree
  as long as ids identify nodes, which is the invariant of the data model (an id is unique
  within a circuit); the theorems about the traversal assume it as \<open>unique_ids\<close>.
\<close>

datatype node_kind = KFalse | KTrue | KLiteral | KDecision | KOther

datatype sddnode =
  SddNode (node_id: nat) (kind: node_kind) (literal: int)
          (elements: "(sddnode \<times> sddnode) list") (node_vtree: "vtree option")

definition is_false :: "sddnode \<Rightarrow> bool" where
  "is_false n = (kind n = KFalse)"

definition is_true :: "sddnode \<Rightarrow> bool" where
  "is_true n = (kind n = KTrue)"

definition is_literal :: "sddnode \<Rightarrow> bool" where
  "is_literal n = (kind n = KLiteral)"

definition is_decision :: "sddnode \<Rightarrow> bool" where
  "is_decision n = (kind n = KDecision)"

text \<open>Constructors for the four variants of a circuit node.\<close>

definition false_node :: "nat \<Rightarrow> sddnode" where
  "false_node i = SddNode i KFalse 0 [] None"

definition true_node :: "nat \<Rightarrow> sddnode" where
  "true_node i = SddNode i KTrue 0 [] None"

definition literal_node :: "nat \<Rightarrow> int \<Rightarrow> sddnode" where
  "literal_node i l = SddNode i KLiteral l [] None"

definition decision_node :: "nat \<Rightarrow> (sddnode \<times> sddnode) list \<Rightarrow> sddnode" where
  "decision_node i els = SddNode i KDecision 0 els None"

section \<open>Circuit export (\<open>sdd_to_dot\<close>)\<close>

definition format_sddnode_label ::
  "sddnode \<Rightarrow> pyval option \<Rightarrow> litnamemap option \<Rightarrow> bool \<Rightarrow> string" where
  "format_sddnode_label node name litnamemap show_id =
     (let name = (case name of
                    Some n \<Rightarrow> n
                  | None \<Rightarrow>
                      if is_true node then PStr true_glyph
                      else if is_false node then PStr false_glyph
                      else PInt (literal node));
          name = (case litnamemap of
                    None \<Rightarrow> name
                  | Some m \<Rightarrow> dict_get m name name)
      in format name)"

definition format_sddnode_xlabel :: "sddnode \<Rightarrow> string" where
  "format_sddnode_xlabel node =
     (let vtree_pos = (case node_vtree node of
                         Some v \<Rightarrow> str_nat (position v)
                       | None \<Rightarrow> ''n'')
      in ''Id:'' @ str_nat (node_id node) @ [CHR 0x5C] @ ''nVp:'' @ vtree_pos)"

lemma size_elements_less: "size_list (size_prod size size) (elements n) < size n"
  by (cases n) simp

text \<open>
  \<open>_sddnode_to_dot_int\<close> returns a list of statements, or \<open>None\<close> when it falls off the
  end of the \<open>if\<close>/\<open>elif\<close>; \<open>s += None\<close> in a caller raises \<open>TypeError\<close>. The set
  \<open>visited\<close> is mutated in place, so the model returns it. The \<open>for\<close> loop over
  \<open>enumerate(node.elements())\<close> is \<open>sddnode_to_dot_elements\<close>, which carries the node's
  id, the index, the elements still to come and the list \<open>s\<close> built so far.
\<close>

function sddnode_to_dot_int ::
    "sddnode \<Rightarrow> nat set \<Rightarrow> litnamemap option \<Rightarrow> bool
      \<Rightarrow> (py_error + string list option) \<times> nat set"
  and sddnode_to_dot_elements ::
    "nat \<Rightarrow> nat \<Rightarrow> (sddnode \<times> sddnode) list \<Rightarrow> string list \<Rightarrow> nat set
      \<Rightarrow> litnamemap option \<Rightarrow> bool \<Rightarrow> (py_error + string list) \<times> nat set"
where
  "sddnode_to_dot_int node visited litnamemap show_id =
     (if node_id node \<in> visited then (Inr (Some []), visited)
      else
        let visited = insert (node_id node) visited in
        if is_false node \<or> is_true node \<or> is_literal node then
          let label = format_sddnode_label node None litnamemap show_id;
              extra_options = (if show_id
                               then '',xlabel=\"'' @ format_sddnode_xlabel node @ ''\"''
                               else '''')
          in (Inr (Some [str_nat (node_id node) @ '' [shape=rectangle,label=\"'' @ label
                           @ ''\"'' @ extra_options @ ''];'']), visited)
        else if is_decision node then
          let label = format_sddnode_label node (Some (PStr ''+'')) litnamemap show_id;
              extra_options = (if show_id
                               then '',xlabel=\"'' @ format_sddnode_xlabel node @ ''\"''
                               else '''');
              s = [str_nat (node_id node) @ '' [shape=circle,label=\"'' @ label
                     @ ''\"'' @ extra_options @ ''];'']
          in (case sddnode_to_dot_elements (node_id node) 0 (elements node) s visited
                     litnamemap show_id of
                (Inl e, visited) \<Rightarrow> (Inl e, visited)
              | (Inr s, visited) \<Rightarrow> (Inr (Some s), visited))
        else (Inr None, visited))"
| "sddnode_to_dot_elements nid idx [] s visited litnamemap show_id = (Inr s, visited)"
| "sddnode_to_dot_elements nid idx ((prime, sub) # rest) s visited litnamemap show_id =
     (let ps_id = ''ps_'' @ str_nat nid @ ''_'' @ str_nat idx;
          s = s @ [ps_id @ '' [shape=circle, label=\"'' @ times_glyph @ ''\"];'',
                   str_nat nid @ '' -> '' @ ps_id @ '' [arrowhead=none];'',
                   ps_id @ '' -> '' @ str_nat (node_id prime) @ '';'',
                   ps_id @ '' -> '' @ str_nat (node_id sub) @ '';'']
      in case sddnode_to_dot_int prime visited litnamemap show_id of
           (Inl e, visited) \<Rightarrow> (Inl e, visited)
         | (Inr None, visited) \<Rightarrow> (Inl TypeError, visited)
         | (Inr (Some ps), visited) \<Rightarrow>
             (case sddnode_to_dot_int sub visited litnamemap show_id of
                (Inl e, visited) \<Rightarrow> (Inl e, visited)
              | (Inr None, visited) \<Rightarrow> (Inl TypeError, visited)
              | (Inr (Some ss), visited) \<Rightarrow>
                  sddnode_to_dot_elements nid (Suc idx) rest (s @ ps @ ss) visited
                    litnamemap show_id))"
  by pat_completeness auto

termination
  by (relation "measure (\<lambda>x. case x of
          Inl (n, _) \<Rightarrow> size n
        | Inr (_, _, els, _) \<Rightarrow> size_list (size_prod size size) els)")
     (auto simp: size_elements_less)

declare sddnode_to_dot_int.simps [simp del]

definition sdd_to_dot :: "sddnode option \<Rightarrow> litnamemap option \<Rightarrow> bool \<Rightarrow> py_error + string" where
  "sdd_to_dot node litnamemap show_id =
     (case node of
        None \<Rightarrow> Inl (ValueError ''No root node given'')
      | Some n \<Rightarrow>
          (let s = [''digraph sdd {''];
               visited = {}
           in case sddnode_to_dot_int n visited litnamemap show_id of
                (Inl e, _) \<Rightarrow> Inl e
              | (Inr None, _) \<Rightarrow> Inl TypeError
              | (Inr (Some body), _) \<Rightarrow> Inr (join [CHR 0x0A] (s @ body @ [''}'']))))"

section \<open>Vtree export (\<open>vtree_to_dot\<close>)\<close>

fun vtree_to_dot_int :: "vtree \<Rightarrow> litnamemap option \<Rightarrow> bool \<Rightarrow> string list" where
  "vtree_to_dot_int (Vtree pos v lft rgt) litnamemap show_id =
     (let s = [];
          s = s @ (if lft = None \<and> rgt = None then
                     let name = PInt v;
                         name = (case litnamemap of
                                   None \<Rightarrow> name
                                 | Some m \<Rightarrow> dict_get m name name)
                     in [str_nat pos @ '' [label=\"'' @ format name @ ''\",shape=\"box\"];'']
                   else if show_id then
                     [str_nat pos @ '' [label=\"'' @ str_nat pos @ ''\",shape=\"point\"];'']
                   else
                     [str_nat pos @ '' [shape=\"point\"];'']);
          s = s @ (case lft of
                     None \<Rightarrow> []
                   | Some l \<Rightarrow>
                       let extra_options =
                             (if show_id
                              then '',headclip=true,headlabel=\"'' @ str_nat (position l) @ ''\"''
                              else '''')
                       in [str_nat pos @ '' -> '' @ str_nat (position l)
                             @ '' [arrowhead=none'' @ extra_options @ ''];'']
                          @ vtree_to_dot_int l litnamemap show_id);
          s = s @ (case rgt of
                     None \<Rightarrow> []
                   | Some r \<Rightarrow>
                       let extra_options =
                             (if show_id
                              then '',headclip=true,headlabel=\"     ''
                                     @ str_nat (position r) @ ''\"''
                              else '''')
                       in [str_nat pos @ '' -> '' @ str_nat (position r)
                             @ '' [arrowhead=none'' @ extra_options @ ''];'']
                          @ vtree_to_dot_int r litnamemap show_id)
      in s)"

text \<open>
  \<open>vtree_to_dot\<close> has no test of its argument: on \<open>None\<close> the first method call,
  \<open>vtree.position()\<close> when \<open>show_id\<close> is set and \<open>vtree.left()\<close> otherwise, raises
  \<open>AttributeError\<close>.
\<close>

definition vtree_to_dot :: "vtree option \<Rightarrow> litnamemap option \<Rightarrow> bool \<Rightarrow> py_error + string" where
  "vtree_to_dot vtree litnamemap show_id =
     (case vtree of
        None \<Rightarrow> Inl AttributeError
      | Some vt \<Rightarrow>
          (let s = [''digraph vtree {''];
               s = s @ (if show_id then
                          [''start [shape=plaintext,style=invis];'',
                           ''start -> '' @ str_nat (position vt)
                             @ '' [penwidth=0,arrowhead=none,headlabel=\"''
                             @ str_nat (position vt) @ ''\"];'']
                        else []);
               s = s @ vtree_to_dot_int vt litnamemap show_id;
               s = s @ [''}'']
           in Inr (join [CHR 0x0A] s)))"

section \<open>Names of nodes in the exported text\<close>

definition is_digit :: "char \<Rightarrow> bool" where
  "is_digit c = (c \<in> set ''0123456789'')"

section \<open>Reachable nodes, and reading the exported statements\<close>

function subnodes :: "sddnode \<Rightarrow> sddnode list" where
  "subnodes n =
     n # (if is_decision n
          then concat (map (\<lambda>(prime, sub). subnodes prime @ subnodes sub) (elements n))
          else [])"
  by pat_completeness auto

lemma size_element_less:
  "(p, s) \<in> set (elements n) \<Longrightarrow> size p < size n \<and> size s < size n"
proof -
  assume a: "(p, s) \<in> set (elements n)"
  have "size_prod size size (p, s) \<le> size_list (size_prod size size) (elements n)"
    using a by (simp add: size_list_estimation')
  with size_elements_less [of n] show ?thesis by simp
qed

termination subnodes
  by (relation "measure size") (auto dest: size_element_less)

declare subnodes.simps [simp del]

definition word_char :: "char \<Rightarrow> bool" where
  "word_char c = (c \<noteq> CHR '' '' \<and> c \<noteq> CHR '';'')"

definition first_word :: "string \<Rightarrow> string" where
  "first_word l = takeWhile word_char l"

definition after_word :: "string \<Rightarrow> string" where
  "after_word l = dropWhile word_char l"

definition is_edge_stmt :: "string \<Rightarrow> bool" where
  "is_edge_stmt l = (take 4 (after_word l) = '' -> '')"

definition edge_of :: "string \<Rightarrow> string \<times> string" where
  "edge_of l = (first_word l, first_word (drop 4 (after_word l)))"

definition stmt_nodes :: "string list \<Rightarrow> string list" where
  "stmt_nodes s = map first_word (filter (\<lambda>l. \<not> is_edge_stmt l) s)"

definition stmt_edges :: "string list \<Rightarrow> (string \<times> string) list" where
  "stmt_edges s = map edge_of (filter is_edge_stmt s)"

definition product_name :: "nat \<Rightarrow> nat \<Rightarrow> string" where
  "product_name nid idx = ''ps_'' @ str_nat nid @ ''_'' @ str_nat idx"

definition xlabel_option :: "bool \<Rightarrow> sddnode \<Rightarrow> string" where
  "xlabel_option show_id node =
     (if show_id then '',xlabel=\"'' @ format_sddnode_xlabel node @ ''\"'' else '''')"

definition leaf_decl :: "sddnode \<Rightarrow> litnamemap option \<Rightarrow> bool \<Rightarrow> string" where
  "leaf_decl node litnamemap show_id =
     str_nat (node_id node) @ '' [shape=rectangle,label=\"''
       @ format_sddnode_label node None litnamemap show_id @ ''\"''
       @ xlabel_option show_id node @ ''];''"

definition decision_decl :: "sddnode \<Rightarrow> litnamemap option \<Rightarrow> bool \<Rightarrow> string" where
  "decision_decl node litnamemap show_id =
     str_nat (node_id node) @ '' [shape=circle,label=\"''
       @ format_sddnode_label node (Some (PStr ''+'')) litnamemap show_id @ ''\"''
       @ xlabel_option show_id node @ ''];''"

definition product_decl :: "nat \<Rightarrow> nat \<Rightarrow> string" where
  "product_decl nid idx =
     product_name nid idx @ '' [shape=circle, label=\"'' @ times_glyph @ ''\"];''"

definition decision_edge :: "nat \<Rightarrow> nat \<Rightarrow> string" where
  "decision_edge nid idx =
     str_nat nid @ '' -> '' @ product_name nid idx @ '' [arrowhead=none];''"

definition child_edge :: "nat \<Rightarrow> nat \<Rightarrow> sddnode \<Rightarrow> string" where
  "child_edge nid idx child =
     product_name nid idx @ '' -> '' @ str_nat (node_id child) @ '';''"

definition element_lines :: "nat \<Rightarrow> nat \<Rightarrow> sddnode \<Rightarrow> sddnode \<Rightarrow> string list" where
  "element_lines nid idx prime sub =
     [product_decl nid idx, decision_edge nid idx,
      child_edge nid idx prime, child_edge nid idx sub]"

definition four_variants :: "sddnode \<Rightarrow> bool" where
  "four_variants rt =
     (\<forall>n\<in>set (subnodes rt). is_false n \<or> is_true n \<or> is_literal n \<or> is_decision n)"

definition unique_ids :: "sddnode \<Rightarrow> bool" where
  "unique_ids rt =
     (\<forall>a\<in>set (subnodes rt). \<forall>b\<in>set (subnodes rt). node_id a = node_id b \<longrightarrow> a = b)"

definition ids :: "sddnode \<Rightarrow> nat set" where
  "ids n = node_id ` set (subnodes n)"

fun elements_lines :: "nat \<Rightarrow> nat \<Rightarrow> (sddnode \<times> sddnode) list \<Rightarrow> string list" where
  "elements_lines nid idx [] = []"
| "elements_lines nid idx ((prime, sub) # rest) =
     element_lines nid idx prime sub @ elements_lines nid (Suc idx) rest"

definition own_lines :: "litnamemap option \<Rightarrow> bool \<Rightarrow> sddnode \<Rightarrow> string list" where
  "own_lines lm sid n =
     (if is_decision n
      then decision_decl n lm sid # elements_lines (node_id n) 0 (elements n)
      else [leaf_decl n lm sid])"

definition fresh_nodes :: "sddnode list \<Rightarrow> sddnode set \<Rightarrow> nat set \<Rightarrow> nat set \<Rightarrow> bool" where
  "fresh_nodes ns S V V' =
     (distinct (map node_id ns) \<and> set ns \<subseteq> S \<and> node_id ` set ns = V' - V \<and> V \<subseteq> V')"

definition settled :: "sddnode \<Rightarrow> nat set \<Rightarrow> nat \<Rightarrow> bool" where
  "settled rt V k =
     (\<forall>m\<in>set (subnodes rt). node_id m \<in> V \<longrightarrow> ids m \<subseteq> V \<or> k < size m)"

definition shared_example :: sddnode where
  "shared_example =
     decision_node 0 [(literal_node 2 1, literal_node 1 2),
                      (literal_node 3 (- 1), literal_node 1 2)]"

definition other_example :: sddnode where
  "other_example = SddNode 7 KOther 0 [] None"

definition constants_example :: sddnode where
  "constants_example = decision_node 0 [(true_node 1, false_node 2)]"

definition glyph_names :: litnamemap where
  "glyph_names = [PStr true_glyph \<mapsto> PStr ''T'', PStr false_glyph \<mapsto> PStr ''F'',
                  PStr ''+'' \<mapsto> PStr ''OR'']"

fun vtree_nodes :: "vtree \<Rightarrow> vtree list" where
  "vtree_nodes (Vtree pos v lft rgt) =
     Vtree pos v lft rgt
       # (case lft of None \<Rightarrow> [] | Some l \<Rightarrow> vtree_nodes l)
       @ (case rgt of None \<Rightarrow> [] | Some r \<Rightarrow> vtree_nodes r)"

definition vtree_name :: "vtree \<Rightarrow> litnamemap option \<Rightarrow> string" where
  "vtree_name n litnamemap =
     format (case litnamemap of
               None \<Rightarrow> PInt (var n)
             | Some m \<Rightarrow> dict_get m (PInt (var n)) (PInt (var n)))"

definition vtree_example :: vtree where
  "vtree_example =
     Vtree 1 0 (Some (Vtree 0 1 None None)) (Some (Vtree 2 2 None None))"

definition annotated :: "string \<Rightarrow> string \<Rightarrow> bool" where
  "annotated a b =
     (a = b
      \<or> (\<exists>pre x. a = pre @ ''];'' \<and> b = pre @ '',xlabel=\"'' @ x @ ''\"];'')
      \<or> (\<exists>p. a = p @ '' [shape=\"point\"];''
              \<and> b = p @ '' [label=\"'' @ p @ ''\",shape=\"point\"];'')
      \<or> (\<exists>pre x. a = pre @ ''];''
              \<and> b = pre @ '',headclip=true,headlabel=\"'' @ x @ ''\"];''))"

definition same_statement :: "string \<Rightarrow> string \<Rightarrow> bool" where
  "same_statement a b =
     (first_word a = first_word b \<and> is_edge_stmt a = is_edge_stmt b
      \<and> (is_edge_stmt a \<longrightarrow> edge_of a = edge_of b))"

definition cosmetic :: "string \<Rightarrow> string \<Rightarrow> bool" where
  "cosmetic a b = (annotated a b \<and> same_statement a b)"

fun split_lines :: "string \<Rightarrow> string list" where
  "split_lines [] = [[]]"
| "split_lines (c # cs) =
     (if c = CHR 0x0A then [] # split_lines cs
      else (case split_lines cs of
              l # ls \<Rightarrow> (c # l) # ls
            | [] \<Rightarrow> [[c]]))"

definition document_nodes :: "py_error + string \<Rightarrow> string list" where
  "document_nodes r =
     (case r of
        Inl e \<Rightarrow> []
      | Inr doc \<Rightarrow> stmt_nodes (butlast (tl (split_lines doc))))"

definition document_edges :: "py_error + string \<Rightarrow> (string \<times> string) list" where
  "document_edges r =
     (case r of
        Inl e \<Rightarrow> []
      | Inr doc \<Rightarrow> stmt_edges (butlast (tl (split_lines doc))))"

definition same_outcome ::
  "(py_error + string list option) \<times> nat set \<Rightarrow> (py_error + string list option) \<times> nat set
    \<Rightarrow> bool" where
  "same_outcome rf rt =
     (case rf of
        (Inl e, V') \<Rightarrow> rt = (Inl e, V')
      | (Inr None, V') \<Rightarrow> rt = (Inr None, V')
      | (Inr (Some sf), V') \<Rightarrow> (\<exists>st. rt = (Inr (Some st), V') \<and> list_all2 cosmetic sf st))"

definition vtree_leaf_example :: vtree where
  "vtree_leaf_example = Vtree 0 1 None None"

section \<open>Weighted model counting\<close>

text \<open>The failures of the count that the specification names.\<close>

datatype wmc_error = MissingWeight | MalformedCircuit

text \<open>
  Modelled from the spec: the traversal of \<open>weighted_model_count(root, weights)\<close>. The
  counting code of the repository (\<open>pysdd.util\<close>: \<open>nnf_file_wmc\<close>,
  \<open>sdd_file_wmc\<close>) is not among the files at hand; only its test is. The model is the
  algorithm of section 4.2 of the specification: a strict postorder evaluation that keeps
  the value of every literal and decision node it has computed in a memo keyed by node id,
  reads a literal's value from \<open>weights\<close> and fails with \<open>MissingWeight\<close> when the
  entry is absent, and sums the products of prime and sub over the elements of a decision
  node. A node that is none of the four variants is a structural violation
  (\<open>MalformedCircuit\<close>); a cycle cannot occur in a value of type \<open>sddnode\<close>.
\<close>

function wmc_visit ::
    "sddnode \<Rightarrow> (int \<rightharpoonup> real) \<Rightarrow> (nat \<rightharpoonup> real) \<Rightarrow> (wmc_error + real) \<times> (nat \<rightharpoonup> real)"
  and wmc_elements ::
    "(sddnode \<times> sddnode) list \<Rightarrow> (int \<rightharpoonup> real) \<Rightarrow> real \<Rightarrow> (nat \<rightharpoonup> real)
      \<Rightarrow> (wmc_error + real) \<times> (nat \<rightharpoonup> real)"
where
  "wmc_visit node weights memo =
     (case memo (node_id node) of
        Some v \<Rightarrow> (Inr v, memo)
      | None \<Rightarrow>
          if is_false node then (Inr 0, memo)
          else if is_true node then (Inr 1, memo)
          else if is_literal node then
            (case weights (literal node) of
               None \<Rightarrow> (Inl MissingWeight, memo)
             | Some w \<Rightarrow> (Inr w, memo(node_id node \<mapsto> w)))
          else if is_decision node then
            (case wmc_elements (elements node) weights 0 memo of
               (Inl e, memo') \<Rightarrow> (Inl e, memo')
             | (Inr tot, memo') \<Rightarrow> (Inr tot, memo'(node_id node \<mapsto> tot)))
          else (Inl MalformedCircuit, memo))"
| "wmc_elements [] weights tot memo = (Inr tot, memo)"
| "wmc_elements ((prime, sub) # rest) weights tot memo =
     (case wmc_visit prime weights memo of
        (Inl e, memo') \<Rightarrow> (Inl e, memo')
      | (Inr vp, memo') \<Rightarrow>
          (case wmc_visit sub weights memo' of
             (Inl e, memo'') \<Rightarrow> (Inl e, memo'')
           | (Inr vs, memo'') \<Rightarrow> wmc_elements rest weights (tot + vp * vs) memo''))"
  by pat_completeness auto

termination
  by (relation "measure (\<lambda>x. case x of
          Inl (n, _) \<Rightarrow> size n
        | Inr (els, _) \<Rightarrow> size_list (size_prod size size) els)")
     (auto simp: size_elements_less)

declare wmc_visit.simps [simp del]

text \<open>
  Modelled from the spec: the public operation \<open>weighted_model_count(root, weights)\<close>,
  the traversal started with an empty memo.
\<close>

definition weighted_model_count :: "sddnode \<Rightarrow> (int \<rightharpoonup> real) \<Rightarrow> wmc_error + real" where
  "weighted_model_count rt weights = fst (wmc_visit rt weights Map.empty)"

text \<open>
  The recursive equations of the specification, for a weight function that is total:
  value(False) = 0, value(True) = 1, value(Literal l) = weights[l], and the value of a
  decision node is the sum over its elements of value(prime) times value(sub).
\<close>

function circuit_value :: "(int \<Rightarrow> real) \<Rightarrow> sddnode \<Rightarrow> real" where
  "circuit_value w n =
     (if is_false n then 0
      else if is_true n then 1
      else if is_literal n then w (literal n)
      else if is_decision n
        then (\<Sum>(p, s)\<leftarrow>elements n. circuit_value w p * circuit_value w s)
      else 0)"
  by pat_completeness auto

termination
  by (relation "measure (\<lambda>(w, n). size n)") (auto dest: size_element_less)

declare circuit_value.simps [simp del]

definition literals :: "sddnode \<Rightarrow> int set" where
  "literals n = literal ` {x \<in> set (subnodes n). is_literal x}"

definition total_weights :: "(int \<rightharpoonup> real) \<Rightarrow> int \<Rightarrow> real" where
  "total_weights weights l = (case weights l of Some x \<Rightarrow> x | None \<Rightarrow> 0)"

definition memo_sound :: "sddnode \<Rightarrow> (int \<rightharpoonup> real) \<Rightarrow> (nat \<rightharpoonup> real) \<Rightarrow> bool" where
  "memo_sound rt weights memo =
     (\<forall>m\<in>set (subnodes rt). \<forall>v. memo (node_id m) = Some v \<longrightarrow>
        literals m \<subseteq> dom weights \<and> v = circuit_value (total_weights weights) m)"

definition wmc_example :: sddnode where
  "wmc_example =
     decision_node 0 [(literal_node 1 1, literal_node 2 2),
                      (literal_node 3 (- 1), literal_node 4 3)]"

definition weights_full :: "int \<rightharpoonup> real" where
  "weights_full = [3 \<mapsto> 1 / 2, 2 \<mapsto> 1 / 2, 1 \<mapsto> 1, - 3 \<mapsto> 1 / 2, - 2 \<mapsto> 1 / 2, - 1 \<mapsto> 1]"


definition weights_partial :: "int \<rightharpoonup> real" where
  "weights_partial = [2 \<mapsto> 1 / 2, 1 \<mapsto> 1, - 1 \<mapsto> 1]"

text \<open>
  The Boolean function of a circuit and the standard weighted model count. An assignment
  is the set \<open>T\<close> of the variables it makes true; a positive literal \<open>l\<close> holds when
  variable \<open>l\<close> is in \<open>T\<close>, a negative one when variable \<open>-l\<close> is not; a decision
  node is the disjunction over its elements of prime and sub.
\<close>

function sat :: "nat set \<Rightarrow> sddnode \<Rightarrow> bool" where
  "sat T n =
     (if is_false n then False
      else if is_true n then True
      else if is_literal n
        then (if 0 < literal n then nat (literal n) \<in> T else nat (- literal n) \<notin> T)
      else if is_decision n then (\<exists>(p, s)\<in>set (elements n). sat T p \<and> sat T s)
      else False)"
  by pat_completeness auto

termination
  by (relation "measure (\<lambda>(T, n). size n)") (auto dest: size_element_less)

declare sat.simps [simp del]

definition vars :: "sddnode \<Rightarrow> nat set" where
  "vars n = (\<lambda>l. nat \<bar>l\<bar>) ` literals n"

definition lit_weight :: "(int \<Rightarrow> real) \<Rightarrow> nat set \<Rightarrow> nat \<Rightarrow> real" where
  "lit_weight w T v = (if v \<in> T then w (int v) else w (- int v))"

text \<open>
  The sum, over the assignments to the variables \<open>X\<close> that satisfy \<open>\<phi>\<close>, of the
  product of the weights of the literals the assignment chooses.
\<close>

definition model_sum :: "(int \<Rightarrow> real) \<Rightarrow> nat set \<Rightarrow> (nat set \<Rightarrow> bool) \<Rightarrow> real" where
  "model_sum w X \<phi> = (\<Sum>T\<in>Pow X. if \<phi> T then (\<Prod>v\<in>X. lit_weight w T v) else 0)"

text \<open>
  A circuit on which the recursive equations compute the model count: every literal
  names a variable; every decision node is deterministic (no assignment satisfies two of
  its elements); and every element whose prime and sub are not the false node is
  decomposable (prime and sub share no variable) and smooth (prime and sub together
  mention every variable of the node).
\<close>

function smooth_dd :: "sddnode \<Rightarrow> bool" where
  "smooth_dd n =
     (if is_decision n then
        (\<forall>(p, s)\<in>set (elements n).
            is_false p \<or> is_false s
            \<or> (smooth_dd p \<and> smooth_dd s \<and> vars p \<inter> vars s = {}
                \<and> vars p \<union> vars s = vars n))
        \<and> (\<forall>T\<in>Pow (vars n).
              length (filter (\<lambda>(p, s). sat T p \<and> sat T s) (elements n)) \<le> 1)
      else if is_literal n then literal n \<noteq> 0
      else is_false n \<or> is_true n)"
  by pat_completeness auto

termination
  by (relation "measure size") (auto dest: size_element_less)

declare smooth_dd.simps [simp del]

definition unsmooth_example :: sddnode where
  "unsmooth_example =
     decision_node 0 [(literal_node 1 1, true_node 2),
                      (literal_node 3 (- 1), literal_node 4 2)]"

definition weights_unit :: "int \<rightharpoonup> real" where
  "weights_unit = [1 \<mapsto> 1, - 1 \<mapsto> 1, 2 \<mapsto> 1, - 2 \<mapsto> 1]"


section \<open>Absent roots\<close>

text \<open>
  Claim C5. Called with \<open>None\<close> as root, \<open>sdd_to_dot\<close> raises
  \<open>ValueError("No root node given")\<close>, whatever the other arguments; \<open>vtree_to_dot\<close>
  has no such guard and fails with \<open>AttributeError\<close> on its first method call.
\<close>

theorem absent_root_errors:
  "sdd_to_dot None litnamemap show_id = Inl (ValueError ''No root node given'')
   \<and> vtree_to_dot None litnamemap show_id = Inl AttributeError"
  by (simp add: sdd_to_dot_def vtree_to_dot_def)

section \<open>Properties of the formatted names\<close>

lemma less_ten_cases: "(k::nat) < 10 \<Longrightarrow> k \<in> {0,1,2,3,4,5,6,7,8,9}"
  by auto

lemma digit_is_digit: "is_digit (digit d)"
proof -
  have "d mod 10 \<in> {0,1,2,3,4,5,6,7,8,9}" by (rule less_ten_cases) simp
  then show ?thesis unfolding is_digit_def digit_def by auto
qed

lemma digit_inj: "a < 10 \<Longrightarrow> b < 10 \<Longrightarrow> digit a = digit b \<Longrightarrow> a = b"
proof -
  assume a: "a < 10" and b: "b < 10" and e: "digit a = digit b"
  have "a \<in> {0,1,2,3,4,5,6,7,8,9}" using a by auto
  moreover have "b \<in> {0,1,2,3,4,5,6,7,8,9}" using b by auto
  ultimately show ?thesis using e unfolding digit_def by auto
qed

lemma str_nat_digits: "\<forall>c\<in>set (str_nat n). is_digit c"
proof (induction n rule: str_nat.induct)
  case (1 n)
  show ?case
  proof (cases "n < 10")
    case True
    then show ?thesis by (simp add: str_nat.simps [of n] digit_is_digit)
  next
    case False
    with 1 show ?thesis by (simp add: str_nat.simps [of n] digit_is_digit)
  qed
qed

lemma str_nat_nonempty: "str_nat n \<noteq> []"
  by (subst str_nat.simps) simp

lemma str_nat_inj: "str_nat m = str_nat n \<Longrightarrow> m = n"
proof (induction m arbitrary: n rule: str_nat.induct)
  case (1 m)
  show ?case
  proof (cases "m < 10")
    case True
    note m = this
    show ?thesis
    proof (cases "n < 10")
      case True
      with m 1(2) show ?thesis
        by (simp add: str_nat.simps [of m] str_nat.simps [of n] digit_inj)
    next
      case False
      with m 1(2) have "str_nat (n div 10) = []"
        by (simp add: str_nat.simps [of m] str_nat.simps [of n])
      then show ?thesis by (simp add: str_nat_nonempty)
    qed
  next
    case False
    note m = this
    show ?thesis
    proof (cases "n < 10")
      case True
      with m 1(2) have "str_nat (m div 10) = []"
        by (simp add: str_nat.simps [of m] str_nat.simps [of n])
      then show ?thesis by (simp add: str_nat_nonempty)
    next
      case False
      with m 1(2) have e: "str_nat (m div 10) = str_nat (n div 10)"
        and d: "digit (m mod 10) = digit (n mod 10)"
        by (simp_all add: str_nat.simps [of m] str_nat.simps [of n])
      from 1(1) [OF m e] have "m div 10 = n div 10" .
      moreover from d have "m mod 10 = n mod 10" by (simp add: digit_inj)
      ultimately show ?thesis by (metis div_mult_mod_eq)
    qed
  qed
qed

lemma is_digit_word_char: "is_digit c \<Longrightarrow> word_char c"
  by (auto simp: is_digit_def word_char_def)

lemma str_nat_word: "\<forall>c\<in>set (str_nat n). word_char c"
  using str_nat_digits is_digit_word_char by blast

lemma product_name_word: "\<forall>c\<in>set (product_name i k). word_char c"
  using str_nat_word by (auto simp: product_name_def word_char_def)

lemma first_word_space:
  "\<forall>c\<in>set w. word_char c \<Longrightarrow> first_word (w @ CHR '' '' # r) = w"
  by (simp add: first_word_def takeWhile_append2 word_char_def)

lemma first_word_semi:
  "\<forall>c\<in>set w. word_char c \<Longrightarrow> first_word (w @ CHR '';'' # r) = w"
  by (simp add: first_word_def takeWhile_append2 word_char_def)

lemma after_word_space:
  "\<forall>c\<in>set w. word_char c \<Longrightarrow> after_word (w @ CHR '' '' # r) = CHR '' '' # r"
  by (simp add: after_word_def dropWhile_append2 word_char_def)

lemma product_name_neq_str_nat: "product_name i k \<noteq> str_nat n"
proof
  assume e: "product_name i k = str_nat n"
  have "hd (str_nat n) \<in> set (str_nat n)"
    by (rule hd_in_set) (rule str_nat_nonempty)
  then have "is_digit (hd (str_nat n))"
    using str_nat_digits [of n] by blast
  moreover have "hd (product_name i k) = CHR ''p''"
    by (simp add: product_name_def)
  ultimately have "is_digit (CHR ''p'')"
    unfolding e [symmetric] by simp
  then show False by (simp add: is_digit_def)
qed

lemma digits_sep_eq:
  assumes "\<forall>c\<in>set xs. is_digit c" "\<forall>c\<in>set ys. is_digit c" "\<not> is_digit a" "\<not> is_digit b"
    and "xs @ a # x = ys @ b # y"
  shows "xs = ys \<and> x = y"
  using assms
proof (induction xs arbitrary: ys)
  case Nil
  then show ?case by (cases ys) auto
next
  case (Cons c xs)
  then show ?case by (cases ys) auto
qed

lemma product_name_inj:
  "product_name i k = product_name j l \<Longrightarrow> i = j \<and> k = l"
proof -
  assume "product_name i k = product_name j l"
  then have e: "str_nat i @ CHR ''_'' # str_nat k = str_nat j @ CHR ''_'' # str_nat l"
    by (simp add: product_name_def)
  have "str_nat i = str_nat j \<and> str_nat k = str_nat l"
    by (rule digits_sep_eq [OF str_nat_digits str_nat_digits _ _ e]) (simp_all add: is_digit_def)
  then show ?thesis by (simp add: str_nat_inj)
qed

section \<open>The circuit traversal\<close>

lemma sddnode_to_dot_int_unfold:
  "sddnode_to_dot_int node visited lm sid =
     (if node_id node \<in> visited then (Inr (Some []), visited)
      else if is_false node \<or> is_true node \<or> is_literal node
        then (Inr (Some [leaf_decl node lm sid]), insert (node_id node) visited)
      else if is_decision node
        then (case sddnode_to_dot_elements (node_id node) 0 (elements node)
                     [decision_decl node lm sid] (insert (node_id node) visited) lm sid of
                (Inl e, v) \<Rightarrow> (Inl e, v)
              | (Inr s, v) \<Rightarrow> (Inr (Some s), v))
      else (Inr None, insert (node_id node) visited))"
  by (subst sddnode_to_dot_int.simps)
     (simp add: Let_def leaf_decl_def decision_decl_def xlabel_option_def)

lemma sddnode_to_dot_elements_unfold:
  "sddnode_to_dot_elements nid idx ((prime, sub) # rest) s visited lm sid =
     (case sddnode_to_dot_int prime visited lm sid of
        (Inl e, v) \<Rightarrow> (Inl e, v)
      | (Inr None, v) \<Rightarrow> (Inl TypeError, v)
      | (Inr (Some ps), v) \<Rightarrow>
          (case sddnode_to_dot_int sub v lm sid of
             (Inl e, v') \<Rightarrow> (Inl e, v')
           | (Inr None, v') \<Rightarrow> (Inl TypeError, v')
           | (Inr (Some ss), v') \<Rightarrow>
               sddnode_to_dot_elements nid (Suc idx) rest
                 ((s @ element_lines nid idx prime sub) @ ps @ ss) v' lm sid))"
  by (simp add: Let_def element_lines_def product_decl_def decision_edge_def child_edge_def
        product_name_def split: prod.splits sum.splits option.splits)

lemma first_word_leaf_decl [simp]: "first_word (leaf_decl n lm sid) = str_nat (node_id n)"
  by (simp add: leaf_decl_def first_word_space str_nat_word)

lemma first_word_decision_decl [simp]: "first_word (decision_decl n lm sid) = str_nat (node_id n)"
  by (simp add: decision_decl_def first_word_space str_nat_word)

lemma first_word_product_decl [simp]: "first_word (product_decl i k) = product_name i k"
  by (simp add: product_decl_def first_word_space product_name_word)

lemma not_edge_leaf_decl [simp]: "\<not> is_edge_stmt (leaf_decl n lm sid)"
  by (simp add: leaf_decl_def is_edge_stmt_def after_word_space str_nat_word)

lemma not_edge_decision_decl [simp]: "\<not> is_edge_stmt (decision_decl n lm sid)"
  by (simp add: decision_decl_def is_edge_stmt_def after_word_space str_nat_word)

lemma not_edge_product_decl [simp]: "\<not> is_edge_stmt (product_decl i k)"
  by (simp add: product_decl_def is_edge_stmt_def after_word_space product_name_word)

lemma is_edge_decision_edge [simp]: "is_edge_stmt (decision_edge i k)"
  by (simp add: decision_edge_def is_edge_stmt_def after_word_space str_nat_word)

lemma is_edge_child_edge [simp]: "is_edge_stmt (child_edge i k c)"
  by (simp add: child_edge_def is_edge_stmt_def after_word_space product_name_word)

lemma edge_of_decision_edge [simp]:
  "edge_of (decision_edge i k) = (str_nat i, product_name i k)"
  by (simp add: decision_edge_def edge_of_def after_word_space first_word_space
        str_nat_word product_name_word)

lemma edge_of_child_edge [simp]:
  "edge_of (child_edge i k c) = (product_name i k, str_nat (node_id c))"
  by (simp add: child_edge_def edge_of_def after_word_space first_word_space first_word_semi
        str_nat_word product_name_word)

lemma dot_induct [case_names node nil cons]:
  assumes node: "\<And>n V.
      (node_id n \<notin> V \<Longrightarrow> \<not> (is_false n \<or> is_true n \<or> is_literal n) \<Longrightarrow> is_decision n
        \<Longrightarrow> Q (node_id n) 0 (elements n) [decision_decl n lm sid] (insert (node_id n) V))
      \<Longrightarrow> P n V"
    and nil: "\<And>nid idx s V. Q nid idx [] s V"
    and cons: "\<And>nid idx p sb rest s V.
      P p V
      \<Longrightarrow> (\<And>ps V1. sddnode_to_dot_int p V lm sid = (Inr (Some ps), V1) \<Longrightarrow> P sb V1)
      \<Longrightarrow> (\<And>ps V1 ss V2.
             sddnode_to_dot_int p V lm sid = (Inr (Some ps), V1)
             \<Longrightarrow> sddnode_to_dot_int sb V1 lm sid = (Inr (Some ss), V2)
             \<Longrightarrow> Q nid (Suc idx) rest ((s @ element_lines nid idx p sb) @ ps @ ss) V2)
      \<Longrightarrow> Q nid idx ((p, sb) # rest) s V"
  shows "P n V" and "Q nid idx els s W"
proof -
  have A: "l = lm \<and> b = sid \<longrightarrow> P n V"
    and B: "l' = lm \<and> b' = sid \<longrightarrow> Q nid idx els s W" for l b l' b'
  proof (induction n V l b and nid idx els s W l' b'
      rule: sddnode_to_dot_int_sddnode_to_dot_elements.induct)
    case (1 node visited litnamemap show_id)
    show ?case
    proof (intro impI, elim conjE)
      assume e: "litnamemap = lm" "show_id = sid"
      show "P node visited"
      proof (rule node)
        assume a: "node_id node \<notin> visited"
          "\<not> (is_false node \<or> is_true node \<or> is_literal node)" "is_decision node"
        have "litnamemap = lm \<and> show_id = sid \<longrightarrow>
              Q (node_id node) 0 (elements node) [decision_decl node litnamemap show_id]
                (insert (node_id node) visited)"
          by (rule 1 [OF a(1) refl a(2) a(3) refl refl])
             (simp add: decision_decl_def xlabel_option_def)
        with e show "Q (node_id node) 0 (elements node) [decision_decl node lm sid]
                (insert (node_id node) visited)"
          by simp
      qed
    qed
  next
    case (2 nid idx s visited litnamemap show_id)
    show ?case by (simp add: nil)
  next
    case (3 nid idx prime sub rest s visited litnamemap show_id)
    show ?case
    proof (intro impI, elim conjE)
      assume e: "litnamemap = lm" "show_id = sid"
      show "Q nid idx ((prime, sub) # rest) s visited"
      proof (rule cons)
        show "P prime visited" using 3(1) [OF refl refl] e by simp
      next
        fix ps V1
        assume "sddnode_to_dot_int prime visited lm sid = (Inr (Some ps), V1)"
        then have "(Inr (Some ps), V1) = sddnode_to_dot_int prime visited litnamemap show_id"
          using e by simp
        from 3(2) [OF refl refl this refl refl] e show "P sub V1" by simp
      next
        fix ps V1 ss V2
        assume "sddnode_to_dot_int prime visited lm sid = (Inr (Some ps), V1)"
          and "sddnode_to_dot_int sub V1 lm sid = (Inr (Some ss), V2)"
        then have a: "(Inr (Some ps), V1) = sddnode_to_dot_int prime visited litnamemap show_id"
          and b: "(Inr (Some ss), V2) = sddnode_to_dot_int sub V1 litnamemap show_id"
          using e by simp_all
        have "litnamemap = lm \<and> show_id = sid \<longrightarrow> Q nid (Suc idx) rest
           ((s @ [(''ps_'' @ str_nat nid @ ''_'' @ str_nat idx)
                    @ '' [shape=circle, label=\"'' @ times_glyph @ ''\"];'',
                  str_nat nid @ '' -> '' @ (''ps_'' @ str_nat nid @ ''_'' @ str_nat idx)
                    @ '' [arrowhead=none];'',
                  (''ps_'' @ str_nat nid @ ''_'' @ str_nat idx) @ '' -> ''
                    @ str_nat (node_id prime) @ '';'',
                  (''ps_'' @ str_nat nid @ ''_'' @ str_nat idx) @ '' -> ''
                    @ str_nat (node_id sub) @ '';'']) @ ps @ ss) V2"
          by (rule 3(3) [OF refl refl a refl refl b refl refl])
        with e show "Q nid (Suc idx) rest ((s @ element_lines nid idx prime sub) @ ps @ ss) V2"
          by (simp add: element_lines_def product_decl_def decision_edge_def child_edge_def
                product_name_def)
      qed
    qed
  qed
  from A [of lm sid] show "P n V" by simp
  from B [of lm sid] show "Q nid idx els s W" by simp
qed

lemma set_subnodes:
  "set (subnodes n) =
     insert n (if is_decision n
               then (\<Union>(p, s)\<in>set (elements n). set (subnodes p) \<union> set (subnodes s))
               else {})"
  by (subst subnodes.simps) auto

lemma subnodes_self: "n \<in> set (subnodes n)"
  by (subst set_subnodes) simp

lemma subnodes_child:
  assumes "is_decision n" "(p, s) \<in> set (elements n)"
  shows "set (subnodes p) \<subseteq> set (subnodes n)" and "set (subnodes s) \<subseteq> set (subnodes n)"
  using assms by (subst (2) set_subnodes; force)+

lemma subnodes_trans: "m \<in> set (subnodes n) \<Longrightarrow> set (subnodes m) \<subseteq> set (subnodes n)"
proof (induction n rule: subnodes.induct)
  case (1 n)
  show ?case
  proof (cases "m = n")
    case True
    then show ?thesis by simp
  next
    case False
    with 1(3) have d: "is_decision n"
      and "m \<in> (\<Union>(p, s)\<in>set (elements n). set (subnodes p) \<union> set (subnodes s))"
      by (subst (asm) set_subnodes; simp split: if_splits)+
    then obtain p s where ps: "(p, s) \<in> set (elements n)"
      and m: "m \<in> set (subnodes p) \<or> m \<in> set (subnodes s)"
      by auto
    from m show ?thesis
    proof
      assume "m \<in> set (subnodes p)"
      from 1(1) [OF d ps refl this] subnodes_child(1) [OF d ps] show ?thesis by blast
    next
      assume "m \<in> set (subnodes s)"
      from 1(2) [OF d ps refl this] subnodes_child(2) [OF d ps] show ?thesis by blast
    qed
  qed
qed

lemma four_variants_child:
  assumes "four_variants n" "is_decision n" "(p, s) \<in> set (elements n)"
  shows "four_variants p" and "four_variants s"
  using assms subnodes_child [OF assms(2,3)] unfolding four_variants_def by blast+

lemma four_variants_self:
  "four_variants n \<Longrightarrow> is_false n \<or> is_true n \<or> is_literal n \<or> is_decision n"
  unfolding four_variants_def using subnodes_self by blast

lemma export_total_aux:
  shows "four_variants n \<longrightarrow> (\<exists>s V'. sddnode_to_dot_int n V lm sid = (Inr (Some s), V'))"
    and "(\<forall>(p, sb)\<in>set els. four_variants p \<and> four_variants sb)
          \<longrightarrow> (\<exists>t V'. sddnode_to_dot_elements nid idx els s V lm sid = (Inr t, V'))"
proof (induction n V and nid idx els s V rule: dot_induct [where lm = lm and sid = sid])
  case (node n V)
  show ?case
  proof
    assume f: "four_variants n"
    show "\<exists>s V'. sddnode_to_dot_int n V lm sid = (Inr (Some s), V')"
    proof (cases "node_id n \<in> V \<or> is_false n \<or> is_true n \<or> is_literal n")
      case True
      then show ?thesis by (subst sddnode_to_dot_int_unfold) auto
    next
      case False
      with four_variants_self [OF f] have d: "is_decision n" by simp
      from f d have "\<forall>(p, sb)\<in>set (elements n). four_variants p \<and> four_variants sb"
        by (auto dest: four_variants_child)
      with node False d
      obtain t V' where "sddnode_to_dot_elements (node_id n) 0 (elements n)
          [decision_decl n lm sid] (insert (node_id n) V) lm sid = (Inr t, V')"
        by auto
      with False d show ?thesis by (subst sddnode_to_dot_int_unfold) simp
    qed
  qed
next
  case (nil nid idx s V)
  show ?case by simp
next
  case (cons nid idx p sb rest s V)
  show ?case
  proof
    assume f: "\<forall>(p, sb)\<in>set ((p, sb) # rest). four_variants p \<and> four_variants sb"
    then obtain ps V1 where 1: "sddnode_to_dot_int p V lm sid = (Inr (Some ps), V1)"
      using cons(1) by auto
    from f cons(2) [OF 1] obtain ss V2 where
      2: "sddnode_to_dot_int sb V1 lm sid = (Inr (Some ss), V2)"
      by auto
    from f cons(3) [OF 1 2] 1 2
    show "\<exists>t V'. sddnode_to_dot_elements nid idx ((p, sb) # rest) s V lm sid = (Inr t, V')"
      by (simp add: sddnode_to_dot_elements_unfold del: sddnode_to_dot_elements.simps)
  qed
qed

lemma fresh_nodes_append:
  assumes "fresh_nodes ns1 S1 V V1" "fresh_nodes ns2 S2 V1 V2" "S1 \<subseteq> S" "S2 \<subseteq> S"
  shows "fresh_nodes (ns1 @ ns2) S V V2"
  using assms unfolding fresh_nodes_def by (auto simp: image_Un)

lemma kinds_exclusive:
  "is_false n \<or> is_true n \<or> is_literal n \<Longrightarrow> \<not> is_decision n"
  by (auto simp: is_false_def is_true_def is_literal_def is_decision_def)

lemma export_lines_aux:
  shows "\<forall>s V'. sddnode_to_dot_int n V lm sid = (Inr (Some s), V') \<longrightarrow>
           (\<exists>ns. mset s = mset (concat (map (own_lines lm sid) ns))
                 \<and> fresh_nodes ns (set (subnodes n)) V V')"
    and "\<forall>t V'. sddnode_to_dot_elements nid idx els acc V lm sid = (Inr t, V') \<longrightarrow>
           (\<exists>ns. mset t = mset acc + mset (elements_lines nid idx els)
                            + mset (concat (map (own_lines lm sid) ns))
                 \<and> fresh_nodes ns (\<Union>(p, s)\<in>set els. set (subnodes p) \<union> set (subnodes s)) V V')"
proof (induction n V and nid idx els acc V rule: dot_induct [where lm = lm and sid = sid])
  case (node n V)
  show ?case
  proof (intro allI impI)
    fix s V'
    assume r: "sddnode_to_dot_int n V lm sid = (Inr (Some s), V')"
    consider (seen) "node_id n \<in> V"
      | (leaf) "node_id n \<notin> V" "is_false n \<or> is_true n \<or> is_literal n"
      | (dec) "node_id n \<notin> V" "\<not> (is_false n \<or> is_true n \<or> is_literal n)" "is_decision n"
      | (other) "node_id n \<notin> V" "\<not> (is_false n \<or> is_true n \<or> is_literal n)" "\<not> is_decision n"
      by blast
    then show "\<exists>ns. mset s = mset (concat (map (own_lines lm sid) ns))
                 \<and> fresh_nodes ns (set (subnodes n)) V V'"
    proof cases
      case seen
      with r have "s = []" "V' = V" by (simp_all add: sddnode_to_dot_int_unfold)
      then have "mset s = mset (concat (map (own_lines lm sid) []))
                 \<and> fresh_nodes [] (set (subnodes n)) V V'"
        by (simp add: fresh_nodes_def)
      then show ?thesis by blast
    next
      case leaf
      with r have "s = [leaf_decl n lm sid]" "V' = insert (node_id n) V"
        by (simp_all add: sddnode_to_dot_int_unfold)
      with leaf have "mset s = mset (concat (map (own_lines lm sid) [n]))
                 \<and> fresh_nodes [n] (set (subnodes n)) V V'"
        using kinds_exclusive [of n] subnodes_self [of n]
        by (auto simp: fresh_nodes_def own_lines_def)
      then show ?thesis by blast
    next
      case dec
      with r obtain t where t: "sddnode_to_dot_elements (node_id n) 0 (elements n)
          [decision_decl n lm sid] (insert (node_id n) V) lm sid = (Inr t, V')" and st: "s = t"
        by (auto simp: sddnode_to_dot_int_unfold split: prod.splits sum.splits)
      from node [OF dec] t obtain ns where
        m: "mset t = mset [decision_decl n lm sid] + mset (elements_lines (node_id n) 0 (elements n))
                      + mset (concat (map (own_lines lm sid) ns))"
        and f: "fresh_nodes ns (\<Union>(p, s)\<in>set (elements n). set (subnodes p) \<union> set (subnodes s))
                  (insert (node_id n) V) V'"
        by blast
      from m dec(3) st have "mset s = mset (concat (map (own_lines lm sid) (n # ns)))"
        by (simp add: own_lines_def)
      moreover from f dec have "fresh_nodes (n # ns) (set (subnodes n)) V V'"
        unfolding fresh_nodes_def by (subst set_subnodes) auto
      ultimately show ?thesis by blast
    next
      case other
      with r show ?thesis by (simp add: sddnode_to_dot_int_unfold)
    qed
  qed
next
  case (nil nid idx s V)
  show ?case by (auto simp: fresh_nodes_def intro!: exI [of _ "[]"])
next
  case (cons nid idx p sb rest s V)
  show ?case
  proof (intro allI impI)
    fix t V'
    assume r: "sddnode_to_dot_elements nid idx ((p, sb) # rest) s V lm sid = (Inr t, V')"
    then obtain ps V1 ss V2 where
      1: "sddnode_to_dot_int p V lm sid = (Inr (Some ps), V1)" and
      2: "sddnode_to_dot_int sb V1 lm sid = (Inr (Some ss), V2)" and
      3: "sddnode_to_dot_elements nid (Suc idx) rest
            ((s @ element_lines nid idx p sb) @ ps @ ss) V2 lm sid = (Inr t, V')"
      by (auto simp: sddnode_to_dot_elements_unfold simp del: sddnode_to_dot_elements.simps
            split: prod.splits sum.splits option.splits)
    from cons(1) 1 obtain ns1 where
      m1: "mset ps = mset (concat (map (own_lines lm sid) ns1))"
      and f1: "fresh_nodes ns1 (set (subnodes p)) V V1"
      by blast
    from cons(2) [OF 1] 2 obtain ns2 where
      m2: "mset ss = mset (concat (map (own_lines lm sid) ns2))"
      and f2: "fresh_nodes ns2 (set (subnodes sb)) V1 V2"
      by blast
    from cons(3) [OF 1 2] 3 obtain ns3 where
      m3: "mset t = mset ((s @ element_lines nid idx p sb) @ ps @ ss)
                    + mset (elements_lines nid (Suc idx) rest)
                    + mset (concat (map (own_lines lm sid) ns3))"
      and f3: "fresh_nodes ns3 (\<Union>(p, s)\<in>set rest. set (subnodes p) \<union> set (subnodes s)) V2 V'"
      by blast
    let ?S = "\<Union>(p, s)\<in>set ((p, sb) # rest). set (subnodes p) \<union> set (subnodes s)"
    have "fresh_nodes (ns1 @ ns2) ?S V V2"
      by (rule fresh_nodes_append [OF f1 f2]) auto
    then have "fresh_nodes ((ns1 @ ns2) @ ns3) ?S V V'"
      by (rule fresh_nodes_append [OF _ f3]) auto
    moreover from m1 m2 m3 have "mset t = mset s + mset (elements_lines nid idx ((p, sb) # rest))
                            + mset (concat (map (own_lines lm sid) ((ns1 @ ns2) @ ns3)))"
      by simp
    ultimately show "\<exists>ns. mset t = mset s + mset (elements_lines nid idx ((p, sb) # rest))
                            + mset (concat (map (own_lines lm sid) ns))
                 \<and> fresh_nodes ns ?S V V'"
      by blast
  qed
qed

lemma ids_unfold:
  "ids n = insert (node_id n)
             (if is_decision n then (\<Union>(p, s)\<in>set (elements n). ids p \<union> ids s) else {})"
  unfolding ids_def by (subst set_subnodes) auto

lemma ids_trans: "m \<in> set (subnodes n) \<Longrightarrow> ids m \<subseteq> ids n"
  unfolding ids_def using subnodes_trans by blast

lemma visited_closed_aux:
  shows "\<forall>k s V'. unique_ids rt \<and> n \<in> set (subnodes rt) \<and> size n \<le> k \<and> settled rt V k
            \<and> sddnode_to_dot_int n V lm sid = (Inr (Some s), V')
          \<longrightarrow> V' = V \<union> ids n \<and> settled rt V' k"
    and "\<forall>k t V'. unique_ids rt
            \<and> (\<forall>(p, s)\<in>set els. p \<in> set (subnodes rt) \<and> s \<in> set (subnodes rt)
                                  \<and> size p \<le> k \<and> size s \<le> k)
            \<and> settled rt V k
            \<and> sddnode_to_dot_elements nid idx els acc V lm sid = (Inr t, V')
          \<longrightarrow> V' = V \<union> (\<Union>(p, s)\<in>set els. ids p \<union> ids s) \<and> settled rt V' k"
proof (induction n V and nid idx els acc V rule: dot_induct [where lm = lm and sid = sid])
  case (node n V)
  show ?case
  proof (intro allI impI, elim conjE)
    fix k s V'
    assume u: "unique_ids rt" and nr: "n \<in> set (subnodes rt)" and k: "size n \<le> k"
      and inv: "settled rt V k"
      and r: "sddnode_to_dot_int n V lm sid = (Inr (Some s), V')"
    consider (seen) "node_id n \<in> V"
      | (leaf) "node_id n \<notin> V" "is_false n \<or> is_true n \<or> is_literal n"
      | (dec) "node_id n \<notin> V" "\<not> (is_false n \<or> is_true n \<or> is_literal n)" "is_decision n"
      | (other) "node_id n \<notin> V" "\<not> (is_false n \<or> is_true n \<or> is_literal n)" "\<not> is_decision n"
      by blast
    then show "V' = V \<union> ids n \<and> settled rt V' k"
    proof cases
      case seen
      with r have v: "V' = V" by (simp add: sddnode_to_dot_int_unfold)
      from inv nr seen k have "ids n \<subseteq> V" unfolding settled_def by fastforce
      with v inv show ?thesis by auto
    next
      case leaf
      with r have v: "V' = insert (node_id n) V" by (simp add: sddnode_to_dot_int_unfold)
      from leaf have i: "ids n = {node_id n}"
        using kinds_exclusive [of n] by (subst ids_unfold) simp
      have "settled rt V' k"
        unfolding settled_def
      proof (intro ballI impI)
        fix m
        assume m: "m \<in> set (subnodes rt)" "node_id m \<in> V'"
        show "ids m \<subseteq> V' \<or> k < size m"
        proof (cases "node_id m = node_id n")
          case True
          with u m nr have "m = n" unfolding unique_ids_def by blast
          with i v show ?thesis by simp
        next
          case False
          with m v have "node_id m \<in> V" by simp
          with inv m have "ids m \<subseteq> V \<or> k < size m" unfolding settled_def by blast
          with v show ?thesis by auto
        qed
      qed
      with v i show ?thesis by simp
    next
      case dec
      with r obtain t where t: "sddnode_to_dot_elements (node_id n) 0 (elements n)
          [decision_decl n lm sid] (insert (node_id n) V) lm sid = (Inr t, V')"
        by (auto simp: sddnode_to_dot_int_unfold split: prod.splits sum.splits)
      let ?V1 = "insert (node_id n) V"
      let ?k = "size n - 1"
      have ch: "\<forall>(p, s)\<in>set (elements n). p \<in> set (subnodes rt) \<and> s \<in> set (subnodes rt)
                  \<and> size p \<le> ?k \<and> size s \<le> ?k"
      proof (clarify, intro conjI)
        fix p s
        assume e: "(p, s) \<in> set (elements n)"
        from subnodes_child(1) [OF dec(3) e] subnodes_self [of p] subnodes_trans [OF nr]
        show "p \<in> set (subnodes rt)" by blast
        from subnodes_child(2) [OF dec(3) e] subnodes_self [of s] subnodes_trans [OF nr]
        show "s \<in> set (subnodes rt)" by blast
        from size_element_less [OF e] show "size p \<le> ?k" "size s \<le> ?k" by linarith+
      qed
      have inv1: "settled rt ?V1 ?k"
        unfolding settled_def
      proof (intro ballI impI)
        fix m
        assume m: "m \<in> set (subnodes rt)" "node_id m \<in> ?V1"
        show "ids m \<subseteq> ?V1 \<or> ?k < size m"
        proof (cases "node_id m = node_id n")
          case True
          with u m nr have "m = n" unfolding unique_ids_def by blast
          moreover have "0 < size n" by (cases n) simp
          ultimately show ?thesis by simp
        next
          case False
          with m have "node_id m \<in> V" by simp
          with inv m have "ids m \<subseteq> V \<or> k < size m" unfolding settled_def by blast
          with k show ?thesis by auto
        qed
      qed
      from node [OF dec] u ch inv1 t
      have v: "V' = ?V1 \<union> (\<Union>(p, s)\<in>set (elements n). ids p \<union> ids s)"
        and inv2: "settled rt V' ?k"
        by blast+
      from dec(3) have i: "ids n = insert (node_id n) (\<Union>(p, s)\<in>set (elements n). ids p \<union> ids s)"
        by (subst ids_unfold) simp
      from v i have v': "V' = V \<union> ids n" by auto
      have "settled rt V' k"
        unfolding settled_def
      proof (intro ballI impI)
        fix m
        assume m: "m \<in> set (subnodes rt)" "node_id m \<in> V'"
        show "ids m \<subseteq> V' \<or> k < size m"
        proof (cases "node_id m \<in> V")
          case True
          with inv m have "ids m \<subseteq> V \<or> k < size m" unfolding settled_def by blast
          with v' show ?thesis by auto
        next
          case False
          with m v' have "node_id m \<in> ids n" by simp
          then obtain m' where m': "m' \<in> set (subnodes n)" "node_id m' = node_id m"
            unfolding ids_def by auto
          from m'(1) subnodes_trans [OF nr] have "m' \<in> set (subnodes rt)" by blast
          with u m m'(2) have "m' = m" unfolding unique_ids_def by blast
          with m'(1) have "ids m \<subseteq> ids n" by (simp add: ids_trans)
          with v' show ?thesis by auto
        qed
      qed
      with v' show ?thesis by simp
    next
      case other
      with r show ?thesis by (simp add: sddnode_to_dot_int_unfold)
    qed
  qed
next
  case (nil nid idx s V)
  show ?case by auto
next
  case (cons nid idx p sb rest s V)
  show ?case
  proof (intro allI impI, elim conjE)
    fix k t V'
    assume u: "unique_ids rt"
      and ch: "\<forall>(p, s)\<in>set ((p, sb) # rest). p \<in> set (subnodes rt) \<and> s \<in> set (subnodes rt)
                                  \<and> size p \<le> k \<and> size s \<le> k"
      and inv: "settled rt V k"
      and r: "sddnode_to_dot_elements nid idx ((p, sb) # rest) s V lm sid = (Inr t, V')"
    from r obtain ps V1 ss V2 where
      1: "sddnode_to_dot_int p V lm sid = (Inr (Some ps), V1)" and
      2: "sddnode_to_dot_int sb V1 lm sid = (Inr (Some ss), V2)" and
      3: "sddnode_to_dot_elements nid (Suc idx) rest
            ((s @ element_lines nid idx p sb) @ ps @ ss) V2 lm sid = (Inr t, V')"
      by (auto simp: sddnode_to_dot_elements_unfold simp del: sddnode_to_dot_elements.simps
            split: prod.splits sum.splits option.splits)
    from cons(1) u ch inv 1 have v1: "V1 = V \<union> ids p" and inv1: "settled rt V1 k"
      by auto
    from cons(2) [OF 1] u ch inv1 2 have v2: "V2 = V1 \<union> ids sb" and inv2: "settled rt V2 k"
      by auto
    from ch have ch': "\<forall>(p, s)\<in>set rest. p \<in> set (subnodes rt) \<and> s \<in> set (subnodes rt)
                                  \<and> size p \<le> k \<and> size s \<le> k"
      by simp
    from cons(3) [OF 1 2] u ch' inv2 3
    have v3: "V' = V2 \<union> (\<Union>(p, s)\<in>set rest. ids p \<union> ids s)" and inv3: "settled rt V' k"
      by blast+
    from v1 v2 v3 inv3
    show "V' = V \<union> (\<Union>(p, s)\<in>set ((p, sb) # rest). ids p \<union> ids s) \<and> settled rt V' k"
      by auto
  qed
qed

lemma visited_all:
  assumes "unique_ids rt" "sddnode_to_dot_int rt {} lm sid = (Inr (Some s), V')"
  shows "V' = ids rt"
proof -
  have "settled rt {} (size rt)" by (simp add: settled_def)
  with visited_closed_aux(1) [of rt rt "{}" lm sid] assms subnodes_self [of rt]
  show ?thesis by auto
qed

lemma stmt_nodes_Nil [simp]: "stmt_nodes [] = []"
  by (simp add: stmt_nodes_def)

lemma stmt_nodes_append [simp]: "stmt_nodes (a @ b) = stmt_nodes a @ stmt_nodes b"
  by (simp add: stmt_nodes_def)

lemma stmt_nodes_concat: "stmt_nodes (concat xss) = concat (map stmt_nodes xss)"
  by (induction xss) (simp_all add: stmt_nodes_def)

lemma stmt_nodes_mset: "mset a = mset b \<Longrightarrow> mset (stmt_nodes a) = mset (stmt_nodes b)"
  unfolding stmt_nodes_def by (metis mset_filter mset_map)

lemma stmt_edges_set: "set a = set b \<Longrightarrow> set (stmt_edges a) = set (stmt_edges b)"
  unfolding stmt_edges_def by simp

lemma stmt_nodes_elements_lines:
  "stmt_nodes (elements_lines nid idx els) = map (product_name nid) [idx..<idx + length els]"
proof (induction els arbitrary: idx)
  case Nil
  show ?case by (simp add: stmt_nodes_def)
next
  case (Cons e els)
  obtain p s where e: "e = (p, s)" by (cases e)
  have "stmt_nodes (element_lines nid idx p s) = [product_name nid idx]"
    by (simp add: stmt_nodes_def element_lines_def)
  moreover have "[idx..<idx + length (e # els)] = idx # [Suc idx..<Suc idx + length els]"
  proof -
    have "[idx..<idx + length (e # els)] = idx # [Suc idx..<idx + length (e # els)]"
      by (rule upt_conv_Cons) simp
    moreover have "idx + length (e # els) = Suc idx + length els" by simp
    ultimately show ?thesis by metis
  qed
  ultimately show ?case using Cons [of "Suc idx"] e by simp
qed

lemma stmt_nodes_own_lines:
  "stmt_nodes (own_lines lm sid n) =
     str_nat (node_id n) #
       (if is_decision n then map (product_name (node_id n)) [0..<length (elements n)] else [])"
  using stmt_nodes_elements_lines [of "node_id n" 0 "elements n"]
  by (simp add: own_lines_def stmt_nodes_def)

lemma count_list_map_inj:
  "inj f \<Longrightarrow> count_list (map f xs) (f x) = count_list xs x"
  by (induction xs) (auto dest: injD)

lemma count_list_products:
  "count_list (map (product_name i) [0..<m]) (product_name j k) = (if i = j \<and> k < m then 1 else 0)"
proof (induction m)
  case 0
  show ?case by simp
next
  case (Suc m)
  then show ?case using product_name_inj [of i m j k] by (auto simp: less_Suc_eq)
qed

lemma count_list_products_str:
  "count_list (map (product_name i) xs) (str_nat x) = 0"
  by (induction xs) (simp_all add: product_name_neq_str_nat)

lemma count_node_name:
  assumes "distinct (map node_id ns)"
  shows "count_list (stmt_nodes (concat (map (own_lines lm sid) ns))) (str_nat i)
         = (if i \<in> node_id ` set ns then 1 else 0)"
  using assms
proof (induction ns)
  case Nil
  show ?case by (simp add: stmt_nodes_def)
next
  case (Cons n ns)
  have e: "(str_nat (node_id n) = str_nat i) = (i = node_id n)"
    using str_nat_inj by blast
  have "count_list (stmt_nodes (own_lines lm sid n)) (str_nat i) = (if i = node_id n then 1 else 0)"
    by (simp add: stmt_nodes_own_lines count_list_products_str e)
  with Cons show ?case by auto
qed

lemma count_product_name:
  assumes "distinct (map node_id ns)" "d \<in> set ns"
  shows "count_list (stmt_nodes (concat (map (own_lines lm sid) ns))) (product_name (node_id d) k)
         = (if is_decision d \<and> k < length (elements d) then 1 else 0)"
  using assms
proof (induction ns)
  case Nil
  then show ?case by simp
next
  case (Cons n ns)
  have own: "count_list (stmt_nodes (own_lines lm sid n)) (product_name (node_id d) k)
      = (if node_id n = node_id d \<and> is_decision n \<and> k < length (elements n) then 1 else 0)"
    using product_name_neq_str_nat [of "node_id d" k "node_id n"]
    by (simp add: stmt_nodes_own_lines count_list_products)
  show ?case
  proof (cases "d = n")
    case True
    have "count_list (stmt_nodes (concat (map (own_lines lm sid) ns))) (product_name (node_id d) k) = 0"
    proof -
      have "\<forall>m\<in>set ns. count_list (stmt_nodes (own_lines lm sid m)) (product_name (node_id d) k) = 0"
      proof
        fix m assume "m \<in> set ns"
        moreover from Cons(2) have "node_id n \<notin> node_id ` set ns" by simp
        ultimately have "node_id m \<noteq> node_id d" using True by (metis imageI)
        then show "count_list (stmt_nodes (own_lines lm sid m)) (product_name (node_id d) k) = 0"
          using product_name_neq_str_nat [of "node_id d" k "node_id m"]
          by (simp add: stmt_nodes_own_lines count_list_products)
      qed
      then show ?thesis by (induction ns) simp_all
    qed
    with own True show ?thesis by simp
  next
    case False
    with Cons(3) have d: "d \<in> set ns" by simp
    with Cons(2) have "node_id n \<noteq> node_id d" by auto
    with own Cons(1) [OF _ d] Cons(2) show ?thesis by simp
  qed
qed

lemma export_structure:
  assumes u: "unique_ids rt" and f: "four_variants rt"
  shows "\<exists>s ns. sddnode_to_dot_int rt {} lm sid = (Inr (Some s), ids rt)
           \<and> mset s = mset (concat (map (own_lines lm sid) ns))
           \<and> distinct (map node_id ns) \<and> set ns = set (subnodes rt)"
proof -
  from export_total_aux(1) [of rt "{}" lm sid] f obtain s V' where
    r: "sddnode_to_dot_int rt {} lm sid = (Inr (Some s), V')"
    by blast
  from visited_all [OF u r] have v: "V' = ids rt" .
  from export_lines_aux(1) [of rt "{}" lm sid] r obtain ns where
    m: "mset s = mset (concat (map (own_lines lm sid) ns))"
    and fr: "fresh_nodes ns (set (subnodes rt)) {} V'"
    by blast
  from fr have d: "distinct (map node_id ns)" and sub: "set ns \<subseteq> set (subnodes rt)"
    and i: "node_id ` set ns = V'"
    by (simp_all add: fresh_nodes_def)
  have "set (subnodes rt) \<subseteq> set ns"
  proof
    fix m assume m: "m \<in> set (subnodes rt)"
    then have "node_id m \<in> node_id ` set ns" using i v by (simp add: ids_def)
    then obtain m' where m': "m' \<in> set ns" "node_id m' = node_id m" by auto
    with sub u m have "m' = m" unfolding unique_ids_def by blast
    with m' show "m \<in> set ns" by simp
  qed
  with sub have "set ns = set (subnodes rt)" by blast
  with r v m d show ?thesis by blast
qed

lemma element_lines_in_own:
  assumes "is_decision d" "k < length (elements d)"
  shows "set (element_lines (node_id d) k (fst (elements d ! k)) (snd (elements d ! k)))
           \<subseteq> set (own_lines lm sid d)"
proof -
  have "j < length els \<Longrightarrow>
        set (element_lines nid (idx + j) (fst (els ! j)) (snd (els ! j)))
          \<subseteq> set (elements_lines nid idx els)" for j els nid idx
  proof (induction els arbitrary: idx j)
    case Nil
    then show ?case by simp
  next
    case (Cons e els)
    obtain p s where e: "e = (p, s)" by (cases e)
    show ?case
    proof (cases j)
      case 0
      with e show ?thesis by simp
    next
      case (Suc j')
      with Cons(2) have "j' < length els" by simp
      from Cons(1) [OF this, of "Suc idx"] Suc e show ?thesis by auto
    qed
  qed
  from this [OF assms(2), of "node_id d" 0] assms(1) show ?thesis
    by (auto simp: own_lines_def)
qed

lemma subnodes_shared_example:
  "subnodes shared_example =
     [shared_example, literal_node 2 1, literal_node 1 2, literal_node 3 (- 1), literal_node 1 2]"
  by (simp add: shared_example_def decision_node_def literal_node_def subnodes.simps
        is_decision_def)

lemma unique_ids_shared_example: "unique_ids shared_example"
  unfolding unique_ids_def subnodes_shared_example
  by (simp add: shared_example_def decision_node_def literal_node_def)

lemma four_variants_shared_example: "four_variants shared_example"
  unfolding four_variants_def subnodes_shared_example
  by (simp add: shared_example_def decision_node_def literal_node_def
        is_decision_def is_literal_def)

lemma stmt_edges_member:
  "l \<in> set s \<Longrightarrow> is_edge_stmt l \<Longrightarrow> edge_of l \<in> set (stmt_edges s)"
  by (auto simp: stmt_edges_def)

text \<open>
  Claim C2. One traversal of a circuit whose nodes have unique ids and one of the four
  kinds, started with nothing visited, succeeds and visits exactly the reachable ids; the
  statements it returns declare each reachable node exactly once, whatever the number of
  its parents, and hold, for every element of every decision node, the edge from the
  element's product node to the prime and to the sub, so every incoming edge of a shared
  node is there. Within such a circuit the ids in the visited set stand for the nodes
  that \<open>io.py\<close> keeps in it: for a set \<open>S\<close> of nodes of the circuit, the id of a node
  of the circuit is among the ids of \<open>S\<close> exactly when the node is in \<open>S\<close>; and
  meeting a node that is already in the visited set returns no statement and leaves the
  set as it is.
\<close>

theorem export_declares_each_node_once:
  assumes "unique_ids rt" "four_variants rt"
  shows "\<exists>s. sddnode_to_dot_int rt {} lm sid = (Inr (Some s), ids rt)
     \<and> sdd_to_dot (Some rt) lm sid = Inr (join [CHR 0x0A] ([''digraph sdd {''] @ s @ [''}'']))
     \<and> (\<forall>n\<in>set (subnodes rt). count_list (stmt_nodes s) (str_nat (node_id n)) = 1)
     \<and> (\<forall>d\<in>set (subnodes rt). is_decision d \<longrightarrow> (\<forall>k<length (elements d).
           (product_name (node_id d) k, str_nat (node_id (fst (elements d ! k))))
             \<in> set (stmt_edges s)
         \<and> (product_name (node_id d) k, str_nat (node_id (snd (elements d ! k))))
             \<in> set (stmt_edges s)))
     \<and> (\<forall>n\<in>set (subnodes rt). \<forall>S. S \<subseteq> set (subnodes rt) \<longrightarrow>
           (node_id n \<in> node_id ` S) = (n \<in> S)
         \<and> (n \<in> S \<longrightarrow>
              sddnode_to_dot_int n (node_id ` S) lm sid = (Inr (Some []), node_id ` S)))"
proof -
  from export_structure [OF assms, of lm sid] obtain s ns where
    r: "sddnode_to_dot_int rt {} lm sid = (Inr (Some s), ids rt)"
    and m: "mset s = mset (concat (map (own_lines lm sid) ns))"
    and d: "distinct (map node_id ns)" and e: "set ns = set (subnodes rt)"
    by blast
  from r have doc: "sdd_to_dot (Some rt) lm sid
      = Inr (join [CHR 0x0A] ([''digraph sdd {''] @ s @ [''}'']))"
    by (simp add: sdd_to_dot_def)
  have cnt: "\<forall>n\<in>set (subnodes rt). count_list (stmt_nodes s) (str_nat (node_id n)) = 1"
  proof
    fix n assume n: "n \<in> set (subnodes rt)"
    have "count_list (stmt_nodes s) (str_nat (node_id n))
        = count (mset (stmt_nodes s)) (str_nat (node_id n))" by (simp add: count_mset)
    also have "\<dots> = count (mset (stmt_nodes (concat (map (own_lines lm sid) ns))))
                      (str_nat (node_id n))"
      using stmt_nodes_mset [OF m] by simp
    also have "\<dots> = 1"
      using count_node_name [OF d, of lm sid "node_id n"] n e by (simp add: count_mset)
    finally show "count_list (stmt_nodes s) (str_nat (node_id n)) = 1" .
  qed
  have edges: "\<forall>d\<in>set (subnodes rt). is_decision d \<longrightarrow> (\<forall>k<length (elements d).
           (product_name (node_id d) k, str_nat (node_id (fst (elements d ! k))))
             \<in> set (stmt_edges s)
         \<and> (product_name (node_id d) k, str_nat (node_id (snd (elements d ! k))))
             \<in> set (stmt_edges s))"
  proof (intro ballI impI allI)
    fix dn k
    assume dn: "dn \<in> set (subnodes rt)" "is_decision dn" and k: "k < length (elements dn)"
    let ?p = "fst (elements dn ! k)" and ?s = "snd (elements dn ! k)"
    from m have "set s = set (concat (map (own_lines lm sid) ns))" by (rule mset_eq_setD)
    with dn(1) e have "set (own_lines lm sid dn) \<subseteq> set s" by auto
    with element_lines_in_own [OF dn(2) k, of lm sid]
    have c: "child_edge (node_id dn) k ?p \<in> set s" "child_edge (node_id dn) k ?s \<in> set s"
      by (auto simp: element_lines_def)
    from stmt_edges_member [OF c(1) is_edge_child_edge]
      stmt_edges_member [OF c(2) is_edge_child_edge]
    show "(product_name (node_id dn) k, str_nat (node_id ?p)) \<in> set (stmt_edges s)
         \<and> (product_name (node_id dn) k, str_nat (node_id ?s)) \<in> set (stmt_edges s)"
      by simp
  qed
  have noop: "\<forall>n\<in>set (subnodes rt). \<forall>S. S \<subseteq> set (subnodes rt) \<longrightarrow>
           (node_id n \<in> node_id ` S) = (n \<in> S)
         \<and> (n \<in> S \<longrightarrow>
              sddnode_to_dot_int n (node_id ` S) lm sid = (Inr (Some []), node_id ` S))"
  proof (intro ballI allI impI conjI)
    fix n S
    assume n: "n \<in> set (subnodes rt)" and S: "S \<subseteq> set (subnodes rt)"
    show "(node_id n \<in> node_id ` S) = (n \<in> S)"
    proof
      assume "node_id n \<in> node_id ` S"
      then obtain m where m: "m \<in> S" "node_id m = node_id n" by auto
      with S n assms(1) have "m = n" unfolding unique_ids_def by blast
      with m show "n \<in> S" by simp
    next
      assume "n \<in> S"
      then show "node_id n \<in> node_id ` S" by simp
    qed
    assume "n \<in> S"
    then have "node_id n \<in> node_id ` S" by simp
    then show "sddnode_to_dot_int n (node_id ` S) lm sid = (Inr (Some []), node_id ` S)"
      by (simp add: sddnode_to_dot_int_unfold)
  qed
  from r doc cnt edges noop show ?thesis by blast
qed

theorem export_declares_each_node_once_witness:
  "unique_ids shared_example \<and> four_variants shared_example
   \<and> (\<exists>s. sddnode_to_dot_int shared_example {} None False = (Inr (Some s), {0, 1, 2, 3})
          \<and> count_list (stmt_nodes s) ''1'' = 1
          \<and> (''ps_0_0'', ''1'') \<in> set (stmt_edges s)
          \<and> (''ps_0_1'', ''1'') \<in> set (stmt_edges s))
   \<and> literal_node 1 2 \<in> set (subnodes shared_example)
   \<and> sddnode_to_dot_int (literal_node 1 2) (node_id ` {literal_node 1 2}) None False
        = (Inr (Some []), node_id ` {literal_node 1 2})"
proof -
  from export_declares_each_node_once
    [OF unique_ids_shared_example four_variants_shared_example, of None False]
  obtain s where
    r: "sddnode_to_dot_int shared_example {} None False = (Inr (Some s), ids shared_example)"
    and c: "\<forall>n\<in>set (subnodes shared_example). count_list (stmt_nodes s) (str_nat (node_id n)) = 1"
    and e: "\<forall>d\<in>set (subnodes shared_example). is_decision d \<longrightarrow> (\<forall>k<length (elements d).
           (product_name (node_id d) k, str_nat (node_id (fst (elements d ! k))))
             \<in> set (stmt_edges s)
         \<and> (product_name (node_id d) k, str_nat (node_id (snd (elements d ! k))))
             \<in> set (stmt_edges s))"
    and n: "\<forall>n\<in>set (subnodes shared_example). \<forall>S. S \<subseteq> set (subnodes shared_example) \<longrightarrow>
           (node_id n \<in> node_id ` S) = (n \<in> S)
         \<and> (n \<in> S \<longrightarrow>
              sddnode_to_dot_int n (node_id ` S) None False = (Inr (Some []), node_id ` S))"
    by blast
  have i: "ids shared_example = {0, 1, 2, 3}"
    unfolding ids_def subnodes_shared_example
    by (auto simp: shared_example_def decision_node_def literal_node_def)
  have m: "literal_node 1 2 \<in> set (subnodes shared_example)"
    by (simp add: subnodes_shared_example)
  then have "{literal_node 1 2} \<subseteq> set (subnodes shared_example)" by simp
  with n m have noop:
    "sddnode_to_dot_int (literal_node 1 2) (node_id ` {literal_node 1 2}) None False
        = (Inr (Some []), node_id ` {literal_node 1 2})"
    by blast
  from m c have c1: "count_list (stmt_nodes s) (str_nat 1) = 1"
    by (fastforce simp: literal_node_def)
  have "shared_example \<in> set (subnodes shared_example)" by (rule subnodes_self)
  moreover have "is_decision shared_example" "elements shared_example =
      [(literal_node 2 1, literal_node 1 2), (literal_node 3 (- 1), literal_node 1 2)]"
    "node_id shared_example = 0"
    by (simp_all add: shared_example_def decision_node_def is_decision_def)
  ultimately have "(product_name 0 0, str_nat 1) \<in> set (stmt_edges s)"
    "(product_name 0 1, str_nat 1) \<in> set (stmt_edges s)"
    using e by (fastforce simp: literal_node_def)+
  with r i c1 unique_ids_shared_example four_variants_shared_example
  have "unique_ids shared_example \<and> four_variants shared_example
   \<and> (\<exists>s. sddnode_to_dot_int shared_example {} None False = (Inr (Some s), {0, 1, 2, 3})
          \<and> count_list (stmt_nodes s) ''1'' = 1
          \<and> (''ps_0_0'', ''1'') \<in> set (stmt_edges s)
          \<and> (''ps_0_1'', ''1'') \<in> set (stmt_edges s))"
    by (auto simp: product_name_def str_nat.simps digit_def)
  with m noop show ?thesis by blast
qed

lemma elements_extend_acc_aux:
  shows "node_id n \<in> V0 \<or> node_id n \<notin> V0"
    and "\<forall>t V'. sddnode_to_dot_elements nid idx els acc V lm sid = (Inr t, V')
            \<longrightarrow> (\<exists>u. t = acc @ u)"
proof (induction n V0 and nid idx els acc V rule: dot_induct [where lm = lm and sid = sid])
  case (node n V)
  show ?case by simp
next
  case (nil nid idx s V)
  show ?case by simp
next
  case (cons nid idx p sb rest s V)
  show ?case
  proof (intro allI impI)
    fix t V'
    assume "sddnode_to_dot_elements nid idx ((p, sb) # rest) s V lm sid = (Inr t, V')"
    then obtain ps V1 ss V2 where
      1: "sddnode_to_dot_int p V lm sid = (Inr (Some ps), V1)" and
      2: "sddnode_to_dot_int sb V1 lm sid = (Inr (Some ss), V2)" and
      3: "sddnode_to_dot_elements nid (Suc idx) rest
            ((s @ element_lines nid idx p sb) @ ps @ ss) V2 lm sid = (Inr t, V')"
      by (auto simp: sddnode_to_dot_elements_unfold simp del: sddnode_to_dot_elements.simps
            split: prod.splits sum.splits option.splits)
    from cons(3) [OF 1 2] 3 obtain u where
      "t = ((s @ element_lines nid idx p sb) @ ps @ ss) @ u" by blast
    then have "t = s @ (element_lines nid idx p sb @ ps @ ss @ u)" by simp
    then show "\<exists>u. t = s @ u" by blast
  qed
qed

lemma elements_extend_acc:
  "sddnode_to_dot_elements nid idx els acc V lm sid = (Inr t, V') \<Longrightarrow> \<exists>u. t = acc @ u"
  using elements_extend_acc_aux(2) by blast

lemma subnodes_constants_example:
  "subnodes constants_example = [constants_example, true_node 1, false_node 2]"
  by (simp add: constants_example_def decision_node_def true_node_def false_node_def
        subnodes.simps is_decision_def)

lemma four_variants_constants_example: "four_variants constants_example"
  unfolding four_variants_def subnodes_constants_example
  by (simp add: constants_example_def decision_node_def true_node_def false_node_def
        is_decision_def is_true_def is_false_def)

lemma unique_ids_constants_example: "unique_ids constants_example"
  unfolding unique_ids_def subnodes_constants_example
  by (simp add: constants_example_def decision_node_def true_node_def false_node_def)

text \<open>
  Claim C6. In the export of a circuit whose nodes have unique ids and one of the four
  kinds, every decision node has its circle declaration, declared once; each of its
  elements has exactly one product node \<open>ps_<id>_<index>\<close>, declared once, and no
  product node exists for an index beyond the elements; the decision node has an edge to
  each product node, and each product node has an edge to the prime and an edge to the sub
  of its element.
\<close>

theorem decision_node_rendering:
  assumes "unique_ids rt" "four_variants rt"
  shows "\<exists>s. sddnode_to_dot_int rt {} lm sid = (Inr (Some s), ids rt)
     \<and> sdd_to_dot (Some rt) lm sid = Inr (join [CHR 0x0A] ([''digraph sdd {''] @ s @ [''}'']))
     \<and> (\<forall>d\<in>set (subnodes rt). is_decision d \<longrightarrow>
           decision_decl d lm sid \<in> set s
         \<and> count_list (stmt_nodes s) (str_nat (node_id d)) = 1
         \<and> (\<forall>k. count_list (stmt_nodes s) (product_name (node_id d) k)
                  = (if k < length (elements d) then 1 else 0))
         \<and> (\<forall>k<length (elements d).
               product_decl (node_id d) k \<in> set s
             \<and> (str_nat (node_id d), product_name (node_id d) k) \<in> set (stmt_edges s)
             \<and> (product_name (node_id d) k, str_nat (node_id (fst (elements d ! k))))
                 \<in> set (stmt_edges s)
             \<and> (product_name (node_id d) k, str_nat (node_id (snd (elements d ! k))))
                 \<in> set (stmt_edges s)))"
proof -
  from export_structure [OF assms, of lm sid] obtain s ns where
    r: "sddnode_to_dot_int rt {} lm sid = (Inr (Some s), ids rt)"
    and m: "mset s = mset (concat (map (own_lines lm sid) ns))"
    and d: "distinct (map node_id ns)" and e: "set ns = set (subnodes rt)"
    by blast
  from r have doc: "sdd_to_dot (Some rt) lm sid
      = Inr (join [CHR 0x0A] ([''digraph sdd {''] @ s @ [''}'']))"
    by (simp add: sdd_to_dot_def)
  from m have sets: "set s = set (concat (map (own_lines lm sid) ns))" by (rule mset_eq_setD)
  have cnt: "count_list (stmt_nodes s) x
      = count_list (stmt_nodes (concat (map (own_lines lm sid) ns))) x" for x
    using stmt_nodes_mset [OF m] by (metis count_mset)
  have main: "\<forall>dn\<in>set (subnodes rt). is_decision dn \<longrightarrow>
           decision_decl dn lm sid \<in> set s
         \<and> count_list (stmt_nodes s) (str_nat (node_id dn)) = 1
         \<and> (\<forall>k. count_list (stmt_nodes s) (product_name (node_id dn) k)
                  = (if k < length (elements dn) then 1 else 0))
         \<and> (\<forall>k<length (elements dn).
               product_decl (node_id dn) k \<in> set s
             \<and> (str_nat (node_id dn), product_name (node_id dn) k) \<in> set (stmt_edges s)
             \<and> (product_name (node_id dn) k, str_nat (node_id (fst (elements dn ! k))))
                 \<in> set (stmt_edges s)
             \<and> (product_name (node_id dn) k, str_nat (node_id (snd (elements dn ! k))))
                 \<in> set (stmt_edges s))"
  proof (intro ballI impI conjI allI)
    fix dn
    assume dn: "dn \<in> set (subnodes rt)" "is_decision dn"
    from dn(1) e sets have own: "set (own_lines lm sid dn) \<subseteq> set s" by auto
    from own dn(2) show "decision_decl dn lm sid \<in> set s" by (auto simp: own_lines_def)
    from count_node_name [OF d, of lm sid "node_id dn"] dn(1) e
    show "count_list (stmt_nodes s) (str_nat (node_id dn)) = 1" by (simp add: cnt)
    show "count_list (stmt_nodes s) (product_name (node_id dn) k)
            = (if k < length (elements dn) then 1 else 0)" for k
      using count_product_name [OF d, of dn lm sid k] dn e by (simp add: cnt)
    fix k assume k: "k < length (elements dn)"
    let ?p = "fst (elements dn ! k)" and ?s = "snd (elements dn ! k)"
    from element_lines_in_own [OF dn(2) k, of lm sid] own
    have c: "product_decl (node_id dn) k \<in> set s" "decision_edge (node_id dn) k \<in> set s"
      "child_edge (node_id dn) k ?p \<in> set s" "child_edge (node_id dn) k ?s \<in> set s"
      by (auto simp: element_lines_def)
    from c(1) show "product_decl (node_id dn) k \<in> set s" .
    from stmt_edges_member [OF c(2) is_edge_decision_edge]
    show "(str_nat (node_id dn), product_name (node_id dn) k) \<in> set (stmt_edges s)" by simp
    from stmt_edges_member [OF c(3) is_edge_child_edge]
    show "(product_name (node_id dn) k, str_nat (node_id ?p)) \<in> set (stmt_edges s)" by simp
    from stmt_edges_member [OF c(4) is_edge_child_edge]
    show "(product_name (node_id dn) k, str_nat (node_id ?s)) \<in> set (stmt_edges s)" by simp
  qed
  from r doc main show ?thesis by blast
qed

lemma ids_shared_example: "ids shared_example = {0, 1, 2, 3}"
  unfolding ids_def subnodes_shared_example
  by (auto simp: shared_example_def decision_node_def literal_node_def)

lemma shared_example_fields:
  "is_decision shared_example"
  "elements shared_example =
     [(literal_node 2 1, literal_node 1 2), (literal_node 3 (- 1), literal_node 1 2)]"
  "node_id shared_example = 0"
  by (simp_all add: shared_example_def decision_node_def is_decision_def)

theorem decision_node_rendering_witness:
  "unique_ids shared_example \<and> four_variants shared_example
   \<and> (\<exists>s. sddnode_to_dot_int shared_example {} None False = (Inr (Some s), {0, 1, 2, 3})
          \<and> ''0 [shape=circle,label=\"+\"];'' \<in> set s
          \<and> count_list (stmt_nodes s) ''0'' = 1
          \<and> count_list (stmt_nodes s) ''ps_0_1'' = 1
          \<and> count_list (stmt_nodes s) ''ps_0_2'' = 0
          \<and> ''ps_0_1 [shape=circle, label=\"'' @ times_glyph @ ''\"];'' \<in> set s
          \<and> (''0'', ''ps_0_1'') \<in> set (stmt_edges s)
          \<and> (''ps_0_1'', ''3'') \<in> set (stmt_edges s)
          \<and> (''ps_0_1'', ''1'') \<in> set (stmt_edges s))"
proof -
  from decision_node_rendering
    [OF unique_ids_shared_example four_variants_shared_example, of None False]
  obtain s where
    r: "sddnode_to_dot_int shared_example {} None False = (Inr (Some s), ids shared_example)"
    and a: "\<forall>d\<in>set (subnodes shared_example). is_decision d \<longrightarrow>
           decision_decl d None False \<in> set s
         \<and> count_list (stmt_nodes s) (str_nat (node_id d)) = 1
         \<and> (\<forall>k. count_list (stmt_nodes s) (product_name (node_id d) k)
                  = (if k < length (elements d) then 1 else 0))
         \<and> (\<forall>k<length (elements d).
               product_decl (node_id d) k \<in> set s
             \<and> (str_nat (node_id d), product_name (node_id d) k) \<in> set (stmt_edges s)
             \<and> (product_name (node_id d) k, str_nat (node_id (fst (elements d ! k))))
                 \<in> set (stmt_edges s)
             \<and> (product_name (node_id d) k, str_nat (node_id (snd (elements d ! k))))
                 \<in> set (stmt_edges s))"
    by blast
  from a subnodes_self [of shared_example] shared_example_fields
  have b: "decision_decl shared_example None False \<in> set s"
    "count_list (stmt_nodes s) (str_nat 0) = 1"
    "\<forall>k. count_list (stmt_nodes s) (product_name 0 k) = (if k < 2 then 1 else 0)"
    "\<forall>k<2. product_decl 0 k \<in> set s
             \<and> (str_nat 0, product_name 0 k) \<in> set (stmt_edges s)
             \<and> (product_name 0 k,
                  str_nat (node_id (fst (elements shared_example ! k)))) \<in> set (stmt_edges s)
             \<and> (product_name 0 k,
                  str_nat (node_id (snd (elements shared_example ! k)))) \<in> set (stmt_edges s)"
    by auto
  have names: "str_nat 0 = ''0''" "str_nat 1 = ''1''" "str_nat 3 = ''3''"
    "product_name 0 1 = ''ps_0_1''" "product_name 0 2 = ''ps_0_2''"
    "product_name 0 (Suc 0) = ''ps_0_1''" "str_nat (Suc 0) = ''1''"
    by (simp_all add: product_name_def str_nat.simps digit_def)
  have decl: "decision_decl shared_example None False = ''0 [shape=circle,label=\"+\"];''"
    by (simp add: decision_decl_def shared_example_fields format_sddnode_label_def
          xlabel_option_def names)
  from b(3) have c1: "count_list (stmt_nodes s) (product_name 0 1) = 1"
    and c2: "count_list (stmt_nodes s) (product_name 0 2) = 0"
    by simp_all
  from b(4) have e: "product_decl 0 1 \<in> set s"
    "(str_nat 0, product_name 0 1) \<in> set (stmt_edges s)"
    "(product_name 0 1, str_nat (node_id (fst (elements shared_example ! 1))))
       \<in> set (stmt_edges s)"
    "(product_name 0 1, str_nat (node_id (snd (elements shared_example ! 1))))
       \<in> set (stmt_edges s)"
    by simp_all
  have ch: "node_id (fst (elements shared_example ! Suc 0)) = 3"
    "node_id (snd (elements shared_example ! Suc 0)) = Suc 0"
    by (simp_all add: shared_example_fields literal_node_def)
  from r b(1,2) c1 c2 e unique_ids_shared_example four_variants_shared_example
  show ?thesis
    by (simp add: ids_shared_example decl names ch product_decl_def)
qed

text \<open>
  Claim C9. A node that is not yet visited and answers \<open>False\<close> to all four predicates
  makes \<open>_sddnode_to_dot_int\<close> fall off its end and return \<open>None\<close>, not a list of
  statements, and \<open>sdd_to_dot\<close> on such a root raises (\<open>TypeError\<close>, from
  \<open>s += None\<close>). When every reachable node is of one of the four kinds, the traversal
  returns a list of statements from any visited set, and \<open>sdd_to_dot\<close> returns a document.
\<close>

theorem export_falls_through_on_other_kind:
  "(node_id n \<notin> V \<and> \<not> is_false n \<and> \<not> is_true n \<and> \<not> is_literal n \<and> \<not> is_decision n
      \<longrightarrow> sddnode_to_dot_int n V lm sid = (Inr None, insert (node_id n) V))
   \<and> (\<not> is_false n \<and> \<not> is_true n \<and> \<not> is_literal n \<and> \<not> is_decision n
      \<longrightarrow> sdd_to_dot (Some n) lm sid = Inl TypeError)
   \<and> (four_variants rt
      \<longrightarrow> (\<exists>s V'. sddnode_to_dot_int rt W lm sid = (Inr (Some s), V'))
        \<and> (\<exists>doc. sdd_to_dot (Some rt) lm sid = Inr doc))"
proof (intro conjI impI)
  assume "node_id n \<notin> V \<and> \<not> is_false n \<and> \<not> is_true n \<and> \<not> is_literal n \<and> \<not> is_decision n"
  then show "sddnode_to_dot_int n V lm sid = (Inr None, insert (node_id n) V)"
    by (simp add: sddnode_to_dot_int_unfold)
next
  assume "\<not> is_false n \<and> \<not> is_true n \<and> \<not> is_literal n \<and> \<not> is_decision n"
  then have "sddnode_to_dot_int n {} lm sid = (Inr None, {node_id n})"
    by (simp add: sddnode_to_dot_int_unfold)
  then show "sdd_to_dot (Some n) lm sid = Inl TypeError"
    by (simp add: sdd_to_dot_def)
next
  assume f: "four_variants rt"
  with export_total_aux(1) [of rt W lm sid]
  show "\<exists>s V'. sddnode_to_dot_int rt W lm sid = (Inr (Some s), V')" by blast
next
  assume f: "four_variants rt"
  with export_total_aux(1) [of rt "{}" lm sid]
  obtain s V' where "sddnode_to_dot_int rt {} lm sid = (Inr (Some s), V')" by blast
  then show "\<exists>doc. sdd_to_dot (Some rt) lm sid = Inr doc"
    by (simp add: sdd_to_dot_def)
qed

theorem export_falls_through_on_other_kind_witness:
  "node_id other_example \<notin> {} \<and> \<not> is_false other_example \<and> \<not> is_true other_example
   \<and> \<not> is_literal other_example \<and> \<not> is_decision other_example
   \<and> sddnode_to_dot_int other_example {} None False = (Inr None, {7})
   \<and> sdd_to_dot (Some other_example) None False = Inl TypeError
   \<and> four_variants shared_example
   \<and> (\<exists>s V'. sddnode_to_dot_int shared_example {} None False = (Inr (Some s), V'))
   \<and> (\<exists>doc. sdd_to_dot (Some shared_example) None False = Inr doc)"
proof -
  have h: "node_id other_example \<notin> {} \<and> \<not> is_false other_example \<and> \<not> is_true other_example
     \<and> \<not> is_literal other_example \<and> \<not> is_decision other_example"
    by (simp add: other_example_def is_false_def is_true_def is_literal_def is_decision_def)
  have i: "node_id other_example = 7" by (simp add: other_example_def)
  from export_falls_through_on_other_kind
    [of other_example "{}" None False shared_example "{}"] h four_variants_shared_example i
  show ?thesis by simp
qed

text \<open>
  Claim C10. The lookup in \<open>litnamemap\<close> is made on whatever name has been chosen:
  a map with an entry for the true glyph, the false glyph or \<open>'+'\<close> changes the label
  of the true node, the false node or a decision node, in \<open>_format_sddnode_label\<close> and
  so in the declaration that \<open>_sddnode_to_dot_int\<close> emits: an unvisited true or false
  node returns the rectangle with the mapped label, and an unvisited decision node whose
  reachable nodes are of the four kinds returns a list of statements that starts with the
  circle carrying the mapped label.
\<close>

theorem label_map_applies_to_every_name:
  "(is_true n \<and> m (PStr true_glyph) = Some v
      \<longrightarrow> format_sddnode_label n None (Some m) sid = format v
        \<and> (node_id n \<notin> V \<longrightarrow> sddnode_to_dot_int n V (Some m) sid =
              (Inr (Some [str_nat (node_id n) @ '' [shape=rectangle,label=\"'' @ format v
                            @ ''\"'' @ xlabel_option sid n @ ''];'']),
               insert (node_id n) V)))
   \<and> (is_false n \<and> m (PStr false_glyph) = Some v
      \<longrightarrow> format_sddnode_label n None (Some m) sid = format v
        \<and> (node_id n \<notin> V \<longrightarrow> sddnode_to_dot_int n V (Some m) sid =
              (Inr (Some [str_nat (node_id n) @ '' [shape=rectangle,label=\"'' @ format v
                            @ ''\"'' @ xlabel_option sid n @ ''];'']),
               insert (node_id n) V)))
   \<and> (is_decision n \<and> m (PStr ''+'') = Some v
      \<longrightarrow> format_sddnode_label n (Some (PStr ''+'')) (Some m) sid = format v
        \<and> (\<forall>s V'. node_id n \<notin> V \<and> sddnode_to_dot_int n V (Some m) sid = (Inr (Some s), V')
              \<longrightarrow> (\<exists>u. s = (str_nat (node_id n) @ '' [shape=circle,label=\"'' @ format v
                                 @ ''\"'' @ xlabel_option sid n @ ''];'') # u))
        \<and> (node_id n \<notin> V \<and> four_variants n
              \<longrightarrow> (\<exists>u V'. sddnode_to_dot_int n V (Some m) sid =
                    (Inr (Some ((str_nat (node_id n) @ '' [shape=circle,label=\"'' @ format v
                                   @ ''\"'' @ xlabel_option sid n @ ''];'') # u)), V'))))"
proof (intro conjI impI allI)
  assume a: "is_true n \<and> m (PStr true_glyph) = Some v"
  then show l: "format_sddnode_label n None (Some m) sid = format v"
    by (simp add: format_sddnode_label_def dict_get_def)
  assume "node_id n \<notin> V"
  with a l show "sddnode_to_dot_int n V (Some m) sid =
      (Inr (Some [str_nat (node_id n) @ '' [shape=rectangle,label=\"'' @ format v
                    @ ''\"'' @ xlabel_option sid n @ ''];'']), insert (node_id n) V)"
    by (simp add: sddnode_to_dot_int_unfold leaf_decl_def)
next
  assume a: "is_false n \<and> m (PStr false_glyph) = Some v"
  then have "\<not> is_true n" by (simp add: is_false_def is_true_def)
  with a show l: "format_sddnode_label n None (Some m) sid = format v"
    by (simp add: format_sddnode_label_def dict_get_def)
  assume "node_id n \<notin> V"
  with a l show "sddnode_to_dot_int n V (Some m) sid =
      (Inr (Some [str_nat (node_id n) @ '' [shape=rectangle,label=\"'' @ format v
                    @ ''\"'' @ xlabel_option sid n @ ''];'']), insert (node_id n) V)"
    by (simp add: sddnode_to_dot_int_unfold leaf_decl_def)
next
  assume a: "is_decision n \<and> m (PStr ''+'') = Some v"
  then show l: "format_sddnode_label n (Some (PStr ''+'')) (Some m) sid = format v"
    by (simp add: format_sddnode_label_def dict_get_def)
  from a have k: "\<not> (is_false n \<or> is_true n \<or> is_literal n)"
    using kinds_exclusive [of n] by blast
  have first: "\<exists>u. s = (str_nat (node_id n) @ '' [shape=circle,label=\"'' @ format v
                          @ ''\"'' @ xlabel_option sid n @ ''];'') # u"
    if b: "node_id n \<notin> V \<and> sddnode_to_dot_int n V (Some m) sid = (Inr (Some s), V')"
    for s V'
  proof -
    from a b k have "sddnode_to_dot_elements (node_id n) 0 (elements n)
        [decision_decl n (Some m) sid] (insert (node_id n) V) (Some m) sid = (Inr s, V')"
      by (auto simp: sddnode_to_dot_int_unfold split: prod.splits sum.splits)
    from elements_extend_acc [OF this] obtain u where "s = decision_decl n (Some m) sid # u"
      by auto
    with l show ?thesis by (simp add: decision_decl_def)
  qed
  {
    fix s V'
    assume "node_id n \<notin> V \<and> sddnode_to_dot_int n V (Some m) sid = (Inr (Some s), V')"
    then show "\<exists>u. s = (str_nat (node_id n) @ '' [shape=circle,label=\"'' @ format v
                          @ ''\"'' @ xlabel_option sid n @ ''];'') # u"
      by (rule first)
  }
  assume c: "node_id n \<notin> V \<and> four_variants n"
  with export_total_aux(1) [of n V "Some m" sid] obtain s V' where
    r: "sddnode_to_dot_int n V (Some m) sid = (Inr (Some s), V')"
    by blast
  with c first [of s V'] obtain u where
    "s = (str_nat (node_id n) @ '' [shape=circle,label=\"'' @ format v
           @ ''\"'' @ xlabel_option sid n @ ''];'') # u"
    by blast
  with r show "\<exists>u V'. sddnode_to_dot_int n V (Some m) sid =
      (Inr (Some ((str_nat (node_id n) @ '' [shape=circle,label=\"'' @ format v
                     @ ''\"'' @ xlabel_option sid n @ ''];'') # u)), V')"
    by blast
qed

lemma constants_example_export:
  "sddnode_to_dot_int constants_example {} (Some glyph_names) False =
     (Inr (Some [''0 [shape=circle,label=\"OR\"];'',
                 ''ps_0_0 [shape=circle, label=\"'' @ times_glyph @ ''\"];'',
                 ''0 -> ps_0_0 [arrowhead=none];'',
                 ''ps_0_0 -> 1;'',
                 ''ps_0_0 -> 2;'',
                 ''1 [shape=rectangle,label=\"T\"];'',
                 ''2 [shape=rectangle,label=\"F\"];'']), {0, 1, 2})"
proof -
  have names: "str_nat 0 = ''0''" "str_nat 1 = ''1''" "str_nat 2 = ''2''"
    "str_nat (Suc 0) = ''1''"
    by (simp_all add: str_nat.simps digit_def)
  have t: "sddnode_to_dot_int (true_node 1) V (Some glyph_names) False =
      (if 1 \<in> V then (Inr (Some []), V)
       else (Inr (Some [''1 [shape=rectangle,label=\"T\"];'']), insert 1 V))" for V
    by (simp add: sddnode_to_dot_int_unfold leaf_decl_def true_node_def is_true_def
          is_false_def format_sddnode_label_def dict_get_def glyph_names_def true_glyph_def
          false_glyph_def xlabel_option_def names)
  have t': "sddnode_to_dot_int (true_node (Suc 0)) V (Some glyph_names) False =
      (if Suc 0 \<in> V then (Inr (Some []), V)
       else (Inr (Some [''1 [shape=rectangle,label=\"T\"];'']), insert (Suc 0) V))" for V
    using t [of V] by simp
  have f: "sddnode_to_dot_int (false_node 2) V (Some glyph_names) False =
      (if 2 \<in> V then (Inr (Some []), V)
       else (Inr (Some [''2 [shape=rectangle,label=\"F\"];'']), insert 2 V))" for V
    by (simp add: sddnode_to_dot_int_unfold leaf_decl_def false_node_def is_true_def
          is_false_def format_sddnode_label_def dict_get_def glyph_names_def true_glyph_def
          false_glyph_def xlabel_option_def names)
  have d: "decision_decl constants_example (Some glyph_names) False
      = ''0 [shape=circle,label=\"OR\"];''"
    by (simp add: decision_decl_def constants_example_def decision_node_def
          format_sddnode_label_def dict_get_def glyph_names_def xlabel_option_def names)
  have k: "is_decision constants_example" "\<not> is_false constants_example"
    "\<not> is_true constants_example" "\<not> is_literal constants_example"
    "node_id constants_example = 0"
    "elements constants_example = [(true_node 1, false_node 2)]"
    by (simp_all add: constants_example_def decision_node_def is_decision_def is_false_def
          is_true_def is_literal_def)
  have n: "node_id (true_node 1) = 1" "node_id (false_node 2) = 2"
    "node_id (true_node (Suc 0)) = Suc 0"
    by (simp_all add: true_node_def false_node_def)
  have e: "element_lines 0 0 (true_node 1) (false_node 2) =
      [''ps_0_0 [shape=circle, label=\"'' @ times_glyph @ ''\"];'',
       ''0 -> ps_0_0 [arrowhead=none];'', ''ps_0_0 -> 1;'', ''ps_0_0 -> 2;'']"
    by (simp add: element_lines_def product_decl_def decision_edge_def child_edge_def
          product_name_def names n)
  have e': "element_lines 0 0 (true_node (Suc 0)) (false_node 2) =
      [''ps_0_0 [shape=circle, label=\"'' @ times_glyph @ ''\"];'',
       ''0 -> ps_0_0 [arrowhead=none];'', ''ps_0_0 -> 1;'', ''ps_0_0 -> 2;'']"
    using e by simp
  show ?thesis
    by (subst sddnode_to_dot_int_unfold)
       (simp add: k d e' t' f sddnode_to_dot_elements_unfold insert_commute
          del: sddnode_to_dot_elements.simps(2))
qed

theorem label_map_applies_to_every_name_witness:
  "is_true (true_node 1) \<and> glyph_names (PStr true_glyph) = Some (PStr ''T'')
   \<and> node_id (true_node 1) \<notin> {}
   \<and> sddnode_to_dot_int (true_node 1) {} (Some glyph_names) False
        = (Inr (Some [''1 [shape=rectangle,label=\"T\"];'']), {1})
   \<and> format_sddnode_label (true_node 1) None (Some glyph_names) False = ''T''
   \<and> is_false (false_node 2) \<and> glyph_names (PStr false_glyph) = Some (PStr ''F'')
   \<and> format_sddnode_label (false_node 2) None (Some glyph_names) False = ''F''
   \<and> is_decision constants_example \<and> glyph_names (PStr ''+'') = Some (PStr ''OR'')
   \<and> format_sddnode_label constants_example (Some (PStr ''+'')) (Some glyph_names) False
        = ''OR''
   \<and> node_id constants_example \<notin> {} \<and> four_variants constants_example
   \<and> (\<exists>u V'. sddnode_to_dot_int constants_example {} (Some glyph_names) False =
          (Inr (Some (''0 [shape=circle,label=\"OR\"];'' # u)), V'))
   \<and> sddnode_to_dot_int constants_example {} (Some glyph_names) False =
       (Inr (Some [''0 [shape=circle,label=\"OR\"];'',
                   ''ps_0_0 [shape=circle, label=\"'' @ times_glyph @ ''\"];'',
                   ''0 -> ps_0_0 [arrowhead=none];'',
                   ''ps_0_0 -> 1;'',
                   ''ps_0_0 -> 2;'',
                   ''1 [shape=rectangle,label=\"T\"];'',
                   ''2 [shape=rectangle,label=\"F\"];'']), {0, 1, 2})"
proof -
  have h: "is_true (true_node 1) \<and> glyph_names (PStr true_glyph) = Some (PStr ''T'')"
    by (simp add: true_node_def is_true_def glyph_names_def true_glyph_def false_glyph_def)
  have i: "node_id (true_node 1) \<notin> {}" by simp
  have n: "node_id (true_node 1) = 1" "str_nat 1 = ''1''"
    by (simp_all add: true_node_def str_nat.simps digit_def)
  have hf: "is_false (false_node 2) \<and> glyph_names (PStr false_glyph) = Some (PStr ''F'')"
    by (simp add: false_node_def is_false_def glyph_names_def true_glyph_def false_glyph_def)
  have hd: "is_decision constants_example \<and> glyph_names (PStr ''+'') = Some (PStr ''OR'')"
    by (simp add: constants_example_def decision_node_def is_decision_def glyph_names_def)
  from label_map_applies_to_every_name [of "true_node 1" glyph_names "PStr ''T''" False "{}"]
    h i n
  have t: "sddnode_to_dot_int (true_node 1) {} (Some glyph_names) False
        = (Inr (Some [''1 [shape=rectangle,label=\"T\"];'']), {1})
      \<and> format_sddnode_label (true_node 1) None (Some glyph_names) False = ''T''"
    by (simp add: xlabel_option_def)
  from label_map_applies_to_every_name [of "false_node 2" glyph_names "PStr ''F''" False "{}"] hf
  have f: "format_sddnode_label (false_node 2) None (Some glyph_names) False = ''F''"
    by simp
  from label_map_applies_to_every_name
    [of constants_example glyph_names "PStr ''OR''" False "{}"] hd
  have d: "format_sddnode_label constants_example (Some (PStr ''+'')) (Some glyph_names) False
        = ''OR''"
    by simp
  have c: "node_id constants_example \<notin> {} \<and> four_variants constants_example"
    by (simp add: four_variants_constants_example)
  have z: "str_nat (node_id constants_example) = ''0''"
    by (simp add: constants_example_def decision_node_def str_nat.simps digit_def)
  from label_map_applies_to_every_name
    [of constants_example glyph_names "PStr ''OR''" False "{}"] hd c
  have "\<exists>u V'. sddnode_to_dot_int constants_example {} (Some glyph_names) False =
      (Inr (Some ((str_nat (node_id constants_example) @ '' [shape=circle,label=\"''
                     @ format (PStr ''OR'') @ ''\"''
                     @ xlabel_option False constants_example @ ''];'') # u)), V')"
    by blast
  then have x: "\<exists>u V'. sddnode_to_dot_int constants_example {} (Some glyph_names) False =
          (Inr (Some (''0 [shape=circle,label=\"OR\"];'' # u)), V')"
    by (simp add: z xlabel_option_def)
  from h i t hf f hd d c x constants_example_export show ?thesis by simp
qed

section \<open>The vtree export\<close>

lemma vtree_to_dot_int_unfold:
  "vtree_to_dot_int n lm sid =
     [if left n = None \<and> right n = None
      then str_nat (position n) @ '' [label=\"'' @ vtree_name n lm @ ''\",shape=\"box\"];''
      else if sid
        then str_nat (position n) @ '' [label=\"'' @ str_nat (position n)
               @ ''\",shape=\"point\"];''
        else str_nat (position n) @ '' [shape=\"point\"];'']
     @ (case left n of
          None \<Rightarrow> []
        | Some l \<Rightarrow>
            (str_nat (position n) @ '' -> '' @ str_nat (position l) @ '' [arrowhead=none''
               @ (if sid then '',headclip=true,headlabel=\"'' @ str_nat (position l) @ ''\"''
                  else '''') @ ''];'')
            # vtree_to_dot_int l lm sid)
     @ (case right n of
          None \<Rightarrow> []
        | Some r \<Rightarrow>
            (str_nat (position n) @ '' -> '' @ str_nat (position r) @ '' [arrowhead=none''
               @ (if sid then '',headclip=true,headlabel=\"     '' @ str_nat (position r)
                               @ ''\"''
                  else '''') @ ''];'')
            # vtree_to_dot_int r lm sid)"
  by (cases n) (simp add: Let_def vtree_name_def split: option.splits)

lemma vtree_nodes_unfold:
  "vtree_nodes n =
     n # (case left n of None \<Rightarrow> [] | Some l \<Rightarrow> vtree_nodes l)
       @ (case right n of None \<Rightarrow> [] | Some r \<Rightarrow> vtree_nodes r)"
  by (cases n) simp

lemma vtree_lines_subtree:
  "n \<in> set (vtree_nodes vt) \<Longrightarrow> set (vtree_to_dot_int n lm sid) \<subseteq> set (vtree_to_dot_int vt lm sid)"
proof (induction vt rule: vtree_nodes.induct)
  case (1 pos v lft rgt)
  let ?vt = "Vtree pos v lft rgt"
  from 1(3) consider (self) "n = ?vt"
    | (l) l where "lft = Some l" "n \<in> set (vtree_nodes l)"
    | (r) r where "rgt = Some r" "n \<in> set (vtree_nodes r)"
    by (auto split: option.splits)
  then show ?case
  proof cases
    case self
    then show ?thesis by simp
  next
    case l
    from 1(1) [OF l] have "set (vtree_to_dot_int n lm sid) \<subseteq> set (vtree_to_dot_int l lm sid)" .
    moreover have "set (vtree_to_dot_int l lm sid) \<subseteq> set (vtree_to_dot_int ?vt lm sid)"
      using l(1) by (subst (2) vtree_to_dot_int_unfold) auto
    ultimately show ?thesis by blast
  next
    case r
    from 1(2) [OF r] have "set (vtree_to_dot_int n lm sid) \<subseteq> set (vtree_to_dot_int r lm sid)" .
    moreover have "set (vtree_to_dot_int r lm sid) \<subseteq> set (vtree_to_dot_int ?vt lm sid)"
      using r(1) by (subst (2) vtree_to_dot_int_unfold) auto
    ultimately show ?thesis by blast
  qed
qed

lemma vtree_lines_length:
  "Suc (length (vtree_to_dot_int vt lm sid)) = 2 * length (vtree_nodes vt)"
proof (induction vt rule: vtree_nodes.induct)
  case (1 pos v lft rgt)
  show ?case
    using 1
    by (subst vtree_to_dot_int_unfold, subst vtree_nodes_unfold)
       (auto split: option.splits)
qed

text \<open>
  Claim C8. In the statements of \<open>vtree_to_dot\<close>, every node of the vtree without
  children is a box labelled with its variable, or with the name \<open>litnamemap\<close> gives
  it; every other node is a point; every node with a left or a right child has an edge to
  that child, which carries the child's position as \<open>headlabel\<close> when \<open>show_id\<close> is
  set and no annotation otherwise. Nothing else is emitted: one declaration per node and
  one edge per child.
\<close>

theorem vtree_rendering:
  "(\<forall>n\<in>set (vtree_nodes vt).
      (left n = None \<and> right n = None \<longrightarrow>
         str_nat (position n) @ '' [label=\"'' @ vtree_name n lm @ ''\",shape=\"box\"];''
           \<in> set (vtree_to_dot_int vt lm sid))
    \<and> (\<not> (left n = None \<and> right n = None) \<longrightarrow>
         (if sid
          then str_nat (position n) @ '' [label=\"'' @ str_nat (position n)
                 @ ''\",shape=\"point\"];''
          else str_nat (position n) @ '' [shape=\"point\"];'')
           \<in> set (vtree_to_dot_int vt lm sid))
    \<and> (\<forall>l. left n = Some l \<longrightarrow>
         str_nat (position n) @ '' -> '' @ str_nat (position l) @ '' [arrowhead=none''
           @ (if sid then '',headclip=true,headlabel=\"'' @ str_nat (position l) @ ''\"''
              else '''') @ ''];''
           \<in> set (vtree_to_dot_int vt lm sid))
    \<and> (\<forall>r. right n = Some r \<longrightarrow>
         str_nat (position n) @ '' -> '' @ str_nat (position r) @ '' [arrowhead=none''
           @ (if sid then '',headclip=true,headlabel=\"     '' @ str_nat (position r) @ ''\"''
              else '''') @ ''];''
           \<in> set (vtree_to_dot_int vt lm sid)))
   \<and> Suc (length (vtree_to_dot_int vt lm sid)) = 2 * length (vtree_nodes vt)
   \<and> vtree_to_dot (Some vt) lm sid =
       Inr (join [CHR 0x0A]
             ([''digraph vtree {'']
              @ (if sid then [''start [shape=plaintext,style=invis];'',
                              ''start -> '' @ str_nat (position vt)
                                @ '' [penwidth=0,arrowhead=none,headlabel=\"''
                                @ str_nat (position vt) @ ''\"];'']
                 else [])
              @ vtree_to_dot_int vt lm sid @ [''}'']))"
proof (intro conjI ballI impI allI)
  fix n
  assume n: "n \<in> set (vtree_nodes vt)"
  note sub = vtree_lines_subtree [OF n, of lm sid]
  {
    assume "left n = None \<and> right n = None"
    then have "str_nat (position n) @ '' [label=\"'' @ vtree_name n lm @ ''\",shape=\"box\"];''
        \<in> set (vtree_to_dot_int n lm sid)"
      by (subst vtree_to_dot_int_unfold) simp
    with sub show "str_nat (position n) @ '' [label=\"'' @ vtree_name n lm
        @ ''\",shape=\"box\"];'' \<in> set (vtree_to_dot_int vt lm sid)"
      by blast
  }
  {
    assume "\<not> (left n = None \<and> right n = None)"
    then have "(if sid
          then str_nat (position n) @ '' [label=\"'' @ str_nat (position n)
                 @ ''\",shape=\"point\"];''
          else str_nat (position n) @ '' [shape=\"point\"];'')
        \<in> set (vtree_to_dot_int n lm sid)"
      by (subst vtree_to_dot_int_unfold) simp
    with sub show "(if sid
          then str_nat (position n) @ '' [label=\"'' @ str_nat (position n)
                 @ ''\",shape=\"point\"];''
          else str_nat (position n) @ '' [shape=\"point\"];'')
        \<in> set (vtree_to_dot_int vt lm sid)"
      by blast
  }
  {
    fix l
    assume "left n = Some l"
    then have "str_nat (position n) @ '' -> '' @ str_nat (position l) @ '' [arrowhead=none''
           @ (if sid then '',headclip=true,headlabel=\"'' @ str_nat (position l) @ ''\"''
              else '''') @ ''];''
        \<in> set (vtree_to_dot_int n lm sid)"
      by (subst vtree_to_dot_int_unfold) simp
    with sub show "str_nat (position n) @ '' -> '' @ str_nat (position l) @ '' [arrowhead=none''
           @ (if sid then '',headclip=true,headlabel=\"'' @ str_nat (position l) @ ''\"''
              else '''') @ ''];''
        \<in> set (vtree_to_dot_int vt lm sid)"
      by blast
  }
  {
    fix r
    assume "right n = Some r"
    then have "str_nat (position n) @ '' -> '' @ str_nat (position r) @ '' [arrowhead=none''
           @ (if sid then '',headclip=true,headlabel=\"     '' @ str_nat (position r) @ ''\"''
              else '''') @ ''];''
        \<in> set (vtree_to_dot_int n lm sid)"
      by (subst vtree_to_dot_int_unfold) (simp split: option.splits)
    with sub show "str_nat (position n) @ '' -> '' @ str_nat (position r) @ '' [arrowhead=none''
           @ (if sid then '',headclip=true,headlabel=\"     '' @ str_nat (position r) @ ''\"''
              else '''') @ ''];''
        \<in> set (vtree_to_dot_int vt lm sid)"
      by blast
  }
next
  show "Suc (length (vtree_to_dot_int vt lm sid)) = 2 * length (vtree_nodes vt)"
    by (rule vtree_lines_length)
next
  show "vtree_to_dot (Some vt) lm sid =
       Inr (join [CHR 0x0A]
             ([''digraph vtree {'']
              @ (if sid then [''start [shape=plaintext,style=invis];'',
                              ''start -> '' @ str_nat (position vt)
                                @ '' [penwidth=0,arrowhead=none,headlabel=\"''
                                @ str_nat (position vt) @ ''\"];'']
                 else [])
              @ vtree_to_dot_int vt lm sid @ [''}'']))"
    by (simp add: vtree_to_dot_def)
qed

lemma vtree_nodes_example:
  "vtree_nodes vtree_example = [vtree_example, Vtree 0 1 None None, Vtree 2 2 None None]"
  by (simp add: vtree_example_def)

theorem vtree_rendering_witness:
  "Vtree 0 1 None None \<in> set (vtree_nodes vtree_example)
   \<and> vtree_example \<in> set (vtree_nodes vtree_example)
   \<and> ''0 [label=\"1\",shape=\"box\"];'' \<in> set (vtree_to_dot_int vtree_example None True)
   \<and> ''1 [label=\"1\",shape=\"point\"];'' \<in> set (vtree_to_dot_int vtree_example None True)
   \<and> ''1 [shape=\"point\"];'' \<in> set (vtree_to_dot_int vtree_example None False)
   \<and> ''1 -> 0 [arrowhead=none,headclip=true,headlabel=\"0\"];''
        \<in> set (vtree_to_dot_int vtree_example None True)
   \<and> ''1 -> 2 [arrowhead=none,headclip=true,headlabel=\"     2\"];''
        \<in> set (vtree_to_dot_int vtree_example None True)
   \<and> ''1 -> 0 [arrowhead=none];'' \<in> set (vtree_to_dot_int vtree_example None False)
   \<and> ''1 -> 2 [arrowhead=none];'' \<in> set (vtree_to_dot_int vtree_example None False)
   \<and> length (vtree_to_dot_int vtree_example None True) = 5"
proof -
  have leaf: "Vtree 0 1 None None \<in> set (vtree_nodes vtree_example)"
    and top: "vtree_example \<in> set (vtree_nodes vtree_example)"
    by (simp_all add: vtree_nodes_example)
  have names: "str_nat 0 = ''0''" "str_nat 1 = ''1''" "str_nat 2 = ''2''"
    "str_nat (Suc 0) = ''1''" "str_int 1 = ''1''"
    by (simp_all add: str_nat.simps digit_def str_int_def)
  have fields: "left vtree_example = Some (Vtree 0 1 None None)"
    "right vtree_example = Some (Vtree 2 2 None None)" "position vtree_example = 1"
    by (simp_all add: vtree_example_def)
  note t = vtree_rendering [of vtree_example None True]
  note f = vtree_rendering [of vtree_example None False]
  from t leaf have 1: "''0 [label=\"1\",shape=\"box\"];''
      \<in> set (vtree_to_dot_int vtree_example None True)"
    by (fastforce simp: names vtree_name_def)
  from t top fields have 2: "''1 [label=\"1\",shape=\"point\"];''
      \<in> set (vtree_to_dot_int vtree_example None True)"
    by (fastforce simp: names)
  from f top fields have 3: "''1 [shape=\"point\"];''
      \<in> set (vtree_to_dot_int vtree_example None False)"
    by (fastforce simp: names)
  from t top fields have 4: "''1 -> 0 [arrowhead=none,headclip=true,headlabel=\"0\"];''
        \<in> set (vtree_to_dot_int vtree_example None True)"
    "''1 -> 2 [arrowhead=none,headclip=true,headlabel=\"     2\"];''
        \<in> set (vtree_to_dot_int vtree_example None True)"
    by (fastforce simp: names)+
  from f top fields have 5: "''1 -> 0 [arrowhead=none];''
        \<in> set (vtree_to_dot_int vtree_example None False)"
    "''1 -> 2 [arrowhead=none];'' \<in> set (vtree_to_dot_int vtree_example None False)"
    by (fastforce simp: names)+
  from t have 6: "length (vtree_to_dot_int vtree_example None True) = 5"
    by (simp add: vtree_nodes_example)
  from leaf top 1 2 3 4 5 6 show ?thesis by simp
qed

section \<open>The effect of \<open>show_id\<close>\<close>

lemma cosmetic_refl: "cosmetic a a"
  by (simp add: cosmetic_def annotated_def same_statement_def)

lemma cosmetic_leaf_decl: "cosmetic (leaf_decl n lm False) (leaf_decl n lm True)"
proof -
  have "annotated (leaf_decl n lm False) (leaf_decl n lm True)"
    unfolding annotated_def
    by (intro disjI2 disjI1
          exI [of _ "str_nat (node_id n) @ '' [shape=rectangle,label=\"''
                       @ format_sddnode_label n None lm False @ ''\"''"]
          exI [of _ "format_sddnode_xlabel n"])
       (simp add: leaf_decl_def xlabel_option_def format_sddnode_label_def)
  then show ?thesis by (simp add: cosmetic_def same_statement_def)
qed

lemma cosmetic_decision_decl: "cosmetic (decision_decl n lm False) (decision_decl n lm True)"
proof -
  have "annotated (decision_decl n lm False) (decision_decl n lm True)"
    unfolding annotated_def
    by (intro disjI2 disjI1
          exI [of _ "str_nat (node_id n) @ '' [shape=circle,label=\"''
                       @ format_sddnode_label n (Some (PStr ''+'')) lm False @ ''\"''"]
          exI [of _ "format_sddnode_xlabel n"])
       (simp add: decision_decl_def xlabel_option_def format_sddnode_label_def)
  then show ?thesis by (simp add: cosmetic_def same_statement_def)
qed

lemma cosmetic_same_graph:
  "list_all2 cosmetic a b \<Longrightarrow> stmt_nodes b = stmt_nodes a \<and> stmt_edges b = stmt_edges a"
proof (induction rule: list_all2_induct)
  case Nil
  show ?case by (simp add: stmt_edges_def)
next
  case (Cons x xs y ys)
  then show ?case
    by (auto simp: cosmetic_def same_statement_def stmt_nodes_def stmt_edges_def)
qed

lemma show_id_cosmetic_aux:
  shows "same_outcome (sddnode_to_dot_int n V lm False) (sddnode_to_dot_int n V lm True)"
    and "\<forall>acc'. list_all2 cosmetic acc acc' \<longrightarrow>
           (case sddnode_to_dot_elements nid idx els acc W lm False of
              (Inl e, V') \<Rightarrow> sddnode_to_dot_elements nid idx els acc' W lm True = (Inl e, V')
            | (Inr sf, V') \<Rightarrow>
                (\<exists>st. sddnode_to_dot_elements nid idx els acc' W lm True = (Inr st, V')
                      \<and> list_all2 cosmetic sf st))"
proof (induction n V and nid idx els acc W rule: dot_induct [where lm = lm and sid = False])
  case (node n V)
  consider (seen) "node_id n \<in> V"
    | (leaf) "node_id n \<notin> V" "is_false n \<or> is_true n \<or> is_literal n"
    | (dec) "node_id n \<notin> V" "\<not> (is_false n \<or> is_true n \<or> is_literal n)" "is_decision n"
    | (other) "node_id n \<notin> V" "\<not> (is_false n \<or> is_true n \<or> is_literal n)" "\<not> is_decision n"
    by blast
  then show ?case
  proof cases
    case seen
    then show ?thesis by (simp add: same_outcome_def sddnode_to_dot_int_unfold)
  next
    case leaf
    then show ?thesis
      by (simp add: same_outcome_def sddnode_to_dot_int_unfold cosmetic_leaf_decl)
  next
    case dec
    have L: "list_all2 cosmetic [decision_decl n lm False] [decision_decl n lm True]"
      by (simp add: cosmetic_decision_decl)
    note F = node [OF dec, rule_format, OF L]
    obtain rl V' where l: "sddnode_to_dot_elements (node_id n) 0 (elements n)
          [decision_decl n lm False] (insert (node_id n) V) lm False = (rl, V')"
      by force
    have uf: "sddnode_to_dot_int n V lm False =
        (case rl of Inl e \<Rightarrow> (Inl e, V') | Inr s \<Rightarrow> (Inr (Some s), V'))"
      using dec l by (simp add: sddnode_to_dot_int_unfold split: sum.splits)
    show ?thesis
    proof (cases rl)
      case (Inl e)
      with F l have "sddnode_to_dot_elements (node_id n) 0 (elements n)
          [decision_decl n lm True] (insert (node_id n) V) lm True = (Inl e, V')"
        by simp
      with dec have "sddnode_to_dot_int n V lm True = (Inl e, V')"
        by (simp add: sddnode_to_dot_int_unfold)
      with uf Inl show ?thesis by (simp add: same_outcome_def)
    next
      case (Inr sf)
      with F l obtain st where "sddnode_to_dot_elements (node_id n) 0 (elements n)
          [decision_decl n lm True] (insert (node_id n) V) lm True = (Inr st, V')"
        and c: "list_all2 cosmetic sf st"
        by auto
      with dec have "sddnode_to_dot_int n V lm True = (Inr (Some st), V')"
        by (simp add: sddnode_to_dot_int_unfold)
      with uf Inr c show ?thesis by (simp add: same_outcome_def)
    qed
  next
    case other
    then show ?thesis by (simp add: same_outcome_def sddnode_to_dot_int_unfold)
  qed
next
  case (nil nid idx s V)
  show ?case by simp
next
  case (cons nid idx p sb rest s V)
  show ?case
  proof (intro allI impI)
    fix acc'
    assume acc: "list_all2 cosmetic s acc'"
    obtain rp V1 where p: "sddnode_to_dot_int p V lm False = (rp, V1)" by force
    show "case sddnode_to_dot_elements nid idx ((p, sb) # rest) s V lm False of
        (Inl e, V') \<Rightarrow>
          sddnode_to_dot_elements nid idx ((p, sb) # rest) acc' V lm True = (Inl e, V')
      | (Inr sf, V') \<Rightarrow>
          (\<exists>st. sddnode_to_dot_elements nid idx ((p, sb) # rest) acc' V lm True = (Inr st, V')
                \<and> list_all2 cosmetic sf st)"
    proof (cases rp)
      case (Inl e)
      with p cons(1) have "sddnode_to_dot_int p V lm True = (Inl e, V1)"
        by (simp add: same_outcome_def)
      with p Inl show ?thesis
        by (simp add: sddnode_to_dot_elements_unfold del: sddnode_to_dot_elements.simps)
    next
      case (Inr op)
      show ?thesis
      proof (cases op)
        case None
        with p Inr cons(1) have "sddnode_to_dot_int p V lm True = (Inr None, V1)"
          by (simp add: same_outcome_def)
        with p Inr None show ?thesis
          by (simp add: sddnode_to_dot_elements_unfold del: sddnode_to_dot_elements.simps)
      next
        case (Some ps)
        with p Inr have pf: "sddnode_to_dot_int p V lm False = (Inr (Some ps), V1)" by simp
        with cons(1) obtain ps' where
          pt: "sddnode_to_dot_int p V lm True = (Inr (Some ps'), V1)"
          and pc: "list_all2 cosmetic ps ps'"
          by (auto simp: same_outcome_def)
        obtain rs V2 where s: "sddnode_to_dot_int sb V1 lm False = (rs, V2)" by force
        note ih2 = cons(2) [OF pf]
        show ?thesis
        proof (cases rs)
          case (Inl e)
          with s ih2 have "sddnode_to_dot_int sb V1 lm True = (Inl e, V2)"
            by (simp add: same_outcome_def)
          with s Inl pf pt show ?thesis
            by (simp add: sddnode_to_dot_elements_unfold del: sddnode_to_dot_elements.simps)
        next
          case (Inr os)
          show ?thesis
          proof (cases os)
            case None
            with s Inr ih2 have "sddnode_to_dot_int sb V1 lm True = (Inr None, V2)"
              by (simp add: same_outcome_def)
            with s Inr None pf pt show ?thesis
              by (simp add: sddnode_to_dot_elements_unfold del: sddnode_to_dot_elements.simps)
          next
            case (Some ss)
            with s Inr have sf: "sddnode_to_dot_int sb V1 lm False = (Inr (Some ss), V2)"
              by simp
            with ih2 obtain ss' where
              st: "sddnode_to_dot_int sb V1 lm True = (Inr (Some ss'), V2)"
              and sc: "list_all2 cosmetic ss ss'"
              by (auto simp: same_outcome_def)
            have "list_all2 cosmetic (element_lines nid idx p sb) (element_lines nid idx p sb)"
              by (simp add: list_all2_refl cosmetic_refl)
            with acc pc sc have X: "list_all2 cosmetic
                ((s @ element_lines nid idx p sb) @ ps @ ss)
                ((acc' @ element_lines nid idx p sb) @ ps' @ ss')"
              by (intro list_all2_appendI)
            have uf: "sddnode_to_dot_elements nid idx ((p, sb) # rest) s V lm False =
                sddnode_to_dot_elements nid (Suc idx) rest
                  ((s @ element_lines nid idx p sb) @ ps @ ss) V2 lm False"
              using pf sf
              by (simp add: sddnode_to_dot_elements_unfold del: sddnode_to_dot_elements.simps)
            have ut: "sddnode_to_dot_elements nid idx ((p, sb) # rest) acc' V lm True =
                sddnode_to_dot_elements nid (Suc idx) rest
                  ((acc' @ element_lines nid idx p sb) @ ps' @ ss') V2 lm True"
              using pt st
              by (simp add: sddnode_to_dot_elements_unfold del: sddnode_to_dot_elements.simps)
            show ?thesis
              unfolding uf ut by (rule cons(3) [OF pf sf, rule_format, OF X])
          qed
        qed
      qed
    qed
  qed
qed

lemma cosmetic_point:
  "cosmetic (str_nat p @ '' [shape=\"point\"];'')
            (str_nat p @ '' [label=\"'' @ str_nat p @ ''\",shape=\"point\"];'')"
proof -
  have "annotated (str_nat p @ '' [shape=\"point\"];'')
            (str_nat p @ '' [label=\"'' @ str_nat p @ ''\",shape=\"point\"];'')"
    unfolding annotated_def by (intro disjI2 disjI1 exI [of _ "str_nat p"]) simp
  moreover have "same_statement (str_nat p @ '' [shape=\"point\"];'')
            (str_nat p @ '' [label=\"'' @ str_nat p @ ''\",shape=\"point\"];'')"
    by (simp add: same_statement_def first_word_space after_word_space is_edge_stmt_def
          str_nat_word)
  ultimately show ?thesis by (simp add: cosmetic_def)
qed

lemma cosmetic_vtree_edge:
  "cosmetic (str_nat p @ '' -> '' @ str_nat c @ '' [arrowhead=none'' @ '''' @ ''];'')
            (str_nat p @ '' -> '' @ str_nat c @ '' [arrowhead=none''
               @ ('',headclip=true,headlabel=\"'' @ x @ ''\"'') @ ''];'')"
proof -
  have "annotated (str_nat p @ '' -> '' @ str_nat c @ '' [arrowhead=none'' @ '''' @ ''];'')
            (str_nat p @ '' -> '' @ str_nat c @ '' [arrowhead=none''
               @ ('',headclip=true,headlabel=\"'' @ x @ ''\"'') @ ''];'')"
    unfolding annotated_def
    by (intro disjI2 exI [of _ "str_nat p @ '' -> '' @ str_nat c @ '' [arrowhead=none''"]
          exI [of _ x]) simp
  moreover have "same_statement
            (str_nat p @ '' -> '' @ str_nat c @ '' [arrowhead=none'' @ '''' @ ''];'')
            (str_nat p @ '' -> '' @ str_nat c @ '' [arrowhead=none''
               @ ('',headclip=true,headlabel=\"'' @ x @ ''\"'') @ ''];'')"
    by (simp add: same_statement_def first_word_space after_word_space is_edge_stmt_def
          edge_of_def str_nat_word)
  ultimately show ?thesis by (simp add: cosmetic_def)
qed

lemma vtree_show_id_cosmetic:
  "list_all2 cosmetic (vtree_to_dot_int vt lm False) (vtree_to_dot_int vt lm True)"
proof (induction vt rule: vtree_nodes.induct)
  case (1 pos v lft rgt)
  let ?vt = "Vtree pos v lft rgt"
  have decl: "list_all2 cosmetic
      [if lft = None \<and> rgt = None
       then str_nat pos @ '' [label=\"'' @ vtree_name ?vt lm @ ''\",shape=\"box\"];''
       else str_nat pos @ '' [shape=\"point\"];'']
      [if lft = None \<and> rgt = None
       then str_nat pos @ '' [label=\"'' @ vtree_name ?vt lm @ ''\",shape=\"box\"];''
       else str_nat pos @ '' [label=\"'' @ str_nat pos @ ''\",shape=\"point\"];'']"
    using cosmetic_point [of pos] by (simp add: cosmetic_refl)
  have l: "list_all2 cosmetic
      (case lft of None \<Rightarrow> []
       | Some l \<Rightarrow> (str_nat pos @ '' -> '' @ str_nat (position l) @ '' [arrowhead=none''
                      @ '''' @ ''];'') # vtree_to_dot_int l lm False)
      (case lft of None \<Rightarrow> []
       | Some l \<Rightarrow> (str_nat pos @ '' -> '' @ str_nat (position l) @ '' [arrowhead=none''
                      @ ('',headclip=true,headlabel=\"'' @ str_nat (position l) @ ''\"'')
                      @ ''];'') # vtree_to_dot_int l lm True)"
  proof (cases lft)
    case None
    then show ?thesis by simp
  next
    case (Some a)
    with 1(1) [OF Some] cosmetic_vtree_edge [of pos "position a" "str_nat (position a)"]
    show ?thesis by simp
  qed
  have r: "list_all2 cosmetic
      (case rgt of None \<Rightarrow> []
       | Some r \<Rightarrow> (str_nat pos @ '' -> '' @ str_nat (position r) @ '' [arrowhead=none''
                      @ '''' @ ''];'') # vtree_to_dot_int r lm False)
      (case rgt of None \<Rightarrow> []
       | Some r \<Rightarrow> (str_nat pos @ '' -> '' @ str_nat (position r) @ '' [arrowhead=none''
                      @ ('',headclip=true,headlabel=\"'' @ (''     '' @ str_nat (position r))
                           @ ''\"'')
                      @ ''];'') # vtree_to_dot_int r lm True)"
  proof (cases rgt)
    case None
    then show ?thesis by simp
  next
    case (Some a)
    with 1(2) [OF Some]
      cosmetic_vtree_edge [of pos "position a" "''     '' @ str_nat (position a)"]
    show ?thesis by simp
  qed
  have "list_all2 cosmetic
      ([if lft = None \<and> rgt = None
        then str_nat pos @ '' [label=\"'' @ vtree_name ?vt lm @ ''\",shape=\"box\"];''
        else str_nat pos @ '' [shape=\"point\"];'']
       @ (case lft of None \<Rightarrow> []
          | Some l \<Rightarrow> (str_nat pos @ '' -> '' @ str_nat (position l) @ '' [arrowhead=none''
                      @ '''' @ ''];'') # vtree_to_dot_int l lm False)
       @ (case rgt of None \<Rightarrow> []
          | Some r \<Rightarrow> (str_nat pos @ '' -> '' @ str_nat (position r) @ '' [arrowhead=none''
                      @ '''' @ ''];'') # vtree_to_dot_int r lm False))
      ([if lft = None \<and> rgt = None
        then str_nat pos @ '' [label=\"'' @ vtree_name ?vt lm @ ''\",shape=\"box\"];''
        else str_nat pos @ '' [label=\"'' @ str_nat pos @ ''\",shape=\"point\"];'']
       @ (case lft of None \<Rightarrow> []
          | Some l \<Rightarrow> (str_nat pos @ '' -> '' @ str_nat (position l) @ '' [arrowhead=none''
                      @ ('',headclip=true,headlabel=\"'' @ str_nat (position l) @ ''\"'')
                      @ ''];'') # vtree_to_dot_int l lm True)
       @ (case rgt of None \<Rightarrow> []
          | Some r \<Rightarrow> (str_nat pos @ '' -> '' @ str_nat (position r) @ '' [arrowhead=none''
                      @ ('',headclip=true,headlabel=\"'' @ (''     '' @ str_nat (position r))
                           @ ''\"'')
                      @ ''];'') # vtree_to_dot_int r lm True))"
    by (intro list_all2_appendI decl l r)
  moreover have "vtree_to_dot_int ?vt lm False =
      [if lft = None \<and> rgt = None
        then str_nat pos @ '' [label=\"'' @ vtree_name ?vt lm @ ''\",shape=\"box\"];''
        else str_nat pos @ '' [shape=\"point\"];'']
       @ (case lft of None \<Rightarrow> []
          | Some l \<Rightarrow> (str_nat pos @ '' -> '' @ str_nat (position l) @ '' [arrowhead=none''
                      @ '''' @ ''];'') # vtree_to_dot_int l lm False)
       @ (case rgt of None \<Rightarrow> []
          | Some r \<Rightarrow> (str_nat pos @ '' -> '' @ str_nat (position r) @ '' [arrowhead=none''
                      @ '''' @ ''];'') # vtree_to_dot_int r lm False)"
    by (subst vtree_to_dot_int_unfold) (simp split: option.splits)
  moreover have "vtree_to_dot_int ?vt lm True =
      [if lft = None \<and> rgt = None
        then str_nat pos @ '' [label=\"'' @ vtree_name ?vt lm @ ''\",shape=\"box\"];''
        else str_nat pos @ '' [label=\"'' @ str_nat pos @ ''\",shape=\"point\"];'']
       @ (case lft of None \<Rightarrow> []
          | Some l \<Rightarrow> (str_nat pos @ '' -> '' @ str_nat (position l) @ '' [arrowhead=none''
                      @ ('',headclip=true,headlabel=\"'' @ str_nat (position l) @ ''\"'')
                      @ ''];'') # vtree_to_dot_int l lm True)
       @ (case rgt of None \<Rightarrow> []
          | Some r \<Rightarrow> (str_nat pos @ '' -> '' @ str_nat (position r) @ '' [arrowhead=none''
                      @ ('',headclip=true,headlabel=\"'' @ (''     '' @ str_nat (position r))
                           @ ''\"'')
                      @ ''];'') # vtree_to_dot_int r lm True)"
    by (subst vtree_to_dot_int_unfold) (simp split: option.splits)
  ultimately show ?case by (simp only:)
qed

lemma vtree_leaf_doc_false:
  "vtree_to_dot (Some vtree_leaf_example) None False =
     Inr (''digraph vtree {'' @ [CHR 0x0A] @ ''0 [label=\"1\",shape=\"box\"];'' @ [CHR 0x0A]
          @ ''}'')"
  by (simp add: vtree_to_dot_def vtree_leaf_example_def dict_get_def str_nat.simps digit_def
        str_int_def)

lemma vtree_leaf_doc_true:
  "vtree_to_dot (Some vtree_leaf_example) None True =
     Inr (''digraph vtree {'' @ [CHR 0x0A]
          @ ''start [shape=plaintext,style=invis];'' @ [CHR 0x0A]
          @ ''start -> 0 [penwidth=0,arrowhead=none,headlabel=\"0\"];'' @ [CHR 0x0A]
          @ ''0 [label=\"1\",shape=\"box\"];'' @ [CHR 0x0A]
          @ ''}'')"
  by (simp add: vtree_to_dot_def vtree_leaf_example_def dict_get_def str_nat.simps digit_def
        str_int_def)

lemma vtree_leaf_nodes_false:
  "document_nodes (vtree_to_dot (Some vtree_leaf_example) None False) = [''0'']"
  unfolding vtree_leaf_doc_false
  by (simp add: document_nodes_def stmt_nodes_def first_word_def is_edge_stmt_def
        after_word_def word_char_def)

lemma vtree_leaf_nodes_true:
  "document_nodes (vtree_to_dot (Some vtree_leaf_example) None True) = [''start'', ''0'']"
  unfolding vtree_leaf_doc_true
  by (simp add: document_nodes_def stmt_nodes_def first_word_def is_edge_stmt_def
        after_word_def word_char_def)

lemma vtree_leaf_edges_false:
  "document_edges (vtree_to_dot (Some vtree_leaf_example) None False) = []"
  unfolding vtree_leaf_doc_false
  by (simp add: document_edges_def stmt_edges_def first_word_def is_edge_stmt_def
        after_word_def word_char_def)

lemma vtree_leaf_edges_true:
  "document_edges (vtree_to_dot (Some vtree_leaf_example) None True) = [(''start'', ''0'')]"
  unfolding vtree_leaf_doc_true
  by (simp add: document_edges_def stmt_edges_def edge_of_def first_word_def is_edge_stmt_def
        after_word_def word_char_def)

text \<open>
  Claim C7, as stated, fails for vtrees. For the vtree that is the single leaf at position
  0 with variable 1, the document written with \<open>show_id\<close> declares a node \<open>start\<close>
  and an edge from \<open>start\<close> to node 0 that the document written without it does not have.
\<close>

theorem show_id_adds_start_node:
  "document_nodes (vtree_to_dot (Some vtree_leaf_example) None True) = [''start'', ''0'']
   \<and> document_nodes (vtree_to_dot (Some vtree_leaf_example) None False) = [''0'']
   \<and> document_edges (vtree_to_dot (Some vtree_leaf_example) None True) = [(''start'', ''0'')]
   \<and> document_edges (vtree_to_dot (Some vtree_leaf_example) None False) = []
   \<and> set (document_nodes (vtree_to_dot (Some vtree_leaf_example) None True))
       \<noteq> set (document_nodes (vtree_to_dot (Some vtree_leaf_example) None False))
   \<and> set (document_edges (vtree_to_dot (Some vtree_leaf_example) None True))
       \<noteq> set (document_edges (vtree_to_dot (Some vtree_leaf_example) None False))"
  by (simp add: vtree_leaf_nodes_false vtree_leaf_nodes_true vtree_leaf_edges_false
        vtree_leaf_edges_true)

text \<open>
  Claim C7, amended. For a circuit, \<open>show_id\<close> changes neither the outcome nor the
  visited set of the traversal: an error or a fall-through stays what it was, and a list of
  statements becomes a list of the same length whose statements declare the same nodes
  and the same edges, each one equal to its counterpart or that counterpart with an
  \<open>xlabel\<close> option added. For a vtree, the statements of the tree itself correspond in
  the same way (a \<open>label\<close> with the position on a point, \<open>headclip\<close> and
  \<open>headlabel\<close> on an edge), and the document with \<open>show_id\<close> has in addition, before
  them, the declaration of an invisible node \<open>start\<close> and an edge from it to the root.
\<close>

theorem show_id_only_annotates:
  "(\<forall>e V'. sddnode_to_dot_int n V lm False = (Inl e, V')
       \<longrightarrow> sddnode_to_dot_int n V lm True = (Inl e, V'))
   \<and> (\<forall>V'. sddnode_to_dot_int n V lm False = (Inr None, V')
       \<longrightarrow> sddnode_to_dot_int n V lm True = (Inr None, V'))
   \<and> (\<forall>sf V'. sddnode_to_dot_int n V lm False = (Inr (Some sf), V')
       \<longrightarrow> (\<exists>st. sddnode_to_dot_int n V lm True = (Inr (Some st), V')
              \<and> list_all2 cosmetic sf st
              \<and> stmt_nodes st = stmt_nodes sf \<and> stmt_edges st = stmt_edges sf))
   \<and> list_all2 cosmetic (vtree_to_dot_int vt lm False) (vtree_to_dot_int vt lm True)
   \<and> stmt_nodes (vtree_to_dot_int vt lm True) = stmt_nodes (vtree_to_dot_int vt lm False)
   \<and> stmt_edges (vtree_to_dot_int vt lm True) = stmt_edges (vtree_to_dot_int vt lm False)
   \<and> vtree_to_dot (Some vt) lm False =
       Inr (join [CHR 0x0A]
             ([''digraph vtree {''] @ vtree_to_dot_int vt lm False @ [''}'']))
   \<and> vtree_to_dot (Some vt) lm True =
       Inr (join [CHR 0x0A]
             ([''digraph vtree {'', ''start [shape=plaintext,style=invis];'',
               ''start -> '' @ str_nat (position vt)
                 @ '' [penwidth=0,arrowhead=none,headlabel=\"''
                 @ str_nat (position vt) @ ''\"];'']
              @ vtree_to_dot_int vt lm True @ [''}'']))"
proof -
  note o = show_id_cosmetic_aux(1) [of n V lm]
  have 1: "\<forall>e V'. sddnode_to_dot_int n V lm False = (Inl e, V')
       \<longrightarrow> sddnode_to_dot_int n V lm True = (Inl e, V')"
    using o by (auto simp: same_outcome_def)
  have 2: "\<forall>V'. sddnode_to_dot_int n V lm False = (Inr None, V')
       \<longrightarrow> sddnode_to_dot_int n V lm True = (Inr None, V')"
    using o by (auto simp: same_outcome_def)
  have 3: "\<forall>sf V'. sddnode_to_dot_int n V lm False = (Inr (Some sf), V')
       \<longrightarrow> (\<exists>st. sddnode_to_dot_int n V lm True = (Inr (Some st), V')
              \<and> list_all2 cosmetic sf st
              \<and> stmt_nodes st = stmt_nodes sf \<and> stmt_edges st = stmt_edges sf)"
  proof (intro allI impI)
    fix sf V'
    assume "sddnode_to_dot_int n V lm False = (Inr (Some sf), V')"
    with o obtain st where st: "sddnode_to_dot_int n V lm True = (Inr (Some st), V')"
      and c: "list_all2 cosmetic sf st"
      by (auto simp: same_outcome_def)
    from cosmetic_same_graph [OF c] st c
    show "\<exists>st. sddnode_to_dot_int n V lm True = (Inr (Some st), V')
              \<and> list_all2 cosmetic sf st
              \<and> stmt_nodes st = stmt_nodes sf \<and> stmt_edges st = stmt_edges sf"
      by blast
  qed
  note v = vtree_show_id_cosmetic [of vt lm]
  note g = cosmetic_same_graph [OF v]
  have 4: "vtree_to_dot (Some vt) lm False =
       Inr (join [CHR 0x0A]
             ([''digraph vtree {''] @ vtree_to_dot_int vt lm False @ [''}'']))"
    by (simp add: vtree_to_dot_def)
  have 5: "vtree_to_dot (Some vt) lm True =
       Inr (join [CHR 0x0A]
             ([''digraph vtree {'', ''start [shape=plaintext,style=invis];'',
               ''start -> '' @ str_nat (position vt)
                 @ '' [penwidth=0,arrowhead=none,headlabel=\"''
                 @ str_nat (position vt) @ ''\"];'']
              @ vtree_to_dot_int vt lm True @ [''}'']))"
    by (simp add: vtree_to_dot_def)
  from 1 2 3 v g 4 5 show ?thesis by (intro conjI) simp_all
qed

theorem show_id_only_annotates_witness:
  "(\<exists>sf st. sddnode_to_dot_int shared_example {} None False = (Inr (Some sf), {0, 1, 2, 3})
       \<and> sddnode_to_dot_int shared_example {} None True = (Inr (Some st), {0, 1, 2, 3})
       \<and> list_all2 cosmetic sf st
       \<and> stmt_nodes st = stmt_nodes sf \<and> stmt_edges st = stmt_edges sf)
   \<and> sddnode_to_dot_int other_example {} None False = (Inr None, {7})
   \<and> sddnode_to_dot_int other_example {} None True = (Inr None, {7})
   \<and> stmt_nodes (vtree_to_dot_int vtree_example None True)
       = stmt_nodes (vtree_to_dot_int vtree_example None False)
   \<and> stmt_edges (vtree_to_dot_int vtree_example None True)
       = stmt_edges (vtree_to_dot_int vtree_example None False)"
proof -
  from export_structure [OF unique_ids_shared_example four_variants_shared_example,
      of None False]
  obtain sf where
    f: "sddnode_to_dot_int shared_example {} None False = (Inr (Some sf), {0, 1, 2, 3})"
    by (auto simp: ids_shared_example)
  note t = show_id_only_annotates [of shared_example "{}" None vtree_example]
  from t f obtain st where
    "sddnode_to_dot_int shared_example {} None True = (Inr (Some st), {0, 1, 2, 3})"
    "list_all2 cosmetic sf st" "stmt_nodes st = stmt_nodes sf" "stmt_edges st = stmt_edges sf"
    by blast
  with f have a: "\<exists>sf st.
       sddnode_to_dot_int shared_example {} None False = (Inr (Some sf), {0, 1, 2, 3})
       \<and> sddnode_to_dot_int shared_example {} None True = (Inr (Some st), {0, 1, 2, 3})
       \<and> list_all2 cosmetic sf st
       \<and> stmt_nodes st = stmt_nodes sf \<and> stmt_edges st = stmt_edges sf"
    by blast
  have o: "sddnode_to_dot_int other_example {} None False = (Inr None, {7})"
    by (simp add: sddnode_to_dot_int_unfold other_example_def is_false_def is_true_def
          is_literal_def is_decision_def)
  with show_id_only_annotates [of other_example "{}" None vtree_example]
  have o': "sddnode_to_dot_int other_example {} None True = (Inr None, {7})"
    by blast
  from a o o' t show ?thesis by simp
qed

section \<open>The weighted model count\<close>

lemma literals_unfold:
  "literals n =
     (if is_literal n then {literal n} else {})
     \<union> (if is_decision n then (\<Union>(p, s)\<in>set (elements n). literals p \<union> literals s) else {})"
  unfolding literals_def by (subst set_subnodes) auto

lemma wmc_sound_aux:
  shows "unique_ids rt \<Longrightarrow> four_variants rt \<Longrightarrow> n \<in> set (subnodes rt)
          \<Longrightarrow> memo_sound rt weights memo
          \<Longrightarrow> (literals n \<subseteq> dom weights \<longrightarrow>
                 (\<exists>memo'. wmc_visit n weights memo
                            = (Inr (circuit_value (total_weights weights) n), memo')
                         \<and> memo_sound rt weights memo'))
            \<and> (\<not> literals n \<subseteq> dom weights \<longrightarrow>
                 (\<exists>memo'. wmc_visit n weights memo = (Inl MissingWeight, memo')))"
    and "unique_ids rt \<Longrightarrow> four_variants rt
          \<Longrightarrow> \<forall>(p, s)\<in>set els. p \<in> set (subnodes rt) \<and> s \<in> set (subnodes rt)
          \<Longrightarrow> memo_sound rt weights memo
          \<Longrightarrow> ((\<forall>(p, s)\<in>set els. literals p \<subseteq> dom weights \<and> literals s \<subseteq> dom weights) \<longrightarrow>
                 (\<exists>memo'. wmc_elements els weights tot memo
                            = (Inr (tot + (\<Sum>(p, s)\<leftarrow>els.
                                   circuit_value (total_weights weights) p
                                   * circuit_value (total_weights weights) s)), memo')
                         \<and> memo_sound rt weights memo'))
            \<and> (\<not> (\<forall>(p, s)\<in>set els. literals p \<subseteq> dom weights \<and> literals s \<subseteq> dom weights) \<longrightarrow>
                 (\<exists>memo'. wmc_elements els weights tot memo = (Inl MissingWeight, memo')))"
proof (induction n weights memo and els weights tot memo rule: wmc_visit_wmc_elements.induct)
  case (1 node weights memo)
  let ?w = "total_weights weights"
  show ?case
  proof -
    note u = "1.prems"(1) and f = "1.prems"(2) and nr = "1.prems"(3) and ms = "1.prems"(4)
    show "(literals node \<subseteq> dom weights \<longrightarrow>
             (\<exists>memo'. wmc_visit node weights memo = (Inr (circuit_value ?w node), memo')
                     \<and> memo_sound rt weights memo'))
          \<and> (\<not> literals node \<subseteq> dom weights \<longrightarrow>
             (\<exists>memo'. wmc_visit node weights memo = (Inl MissingWeight, memo')))"
    proof (cases "memo (node_id node)")
      case (Some v)
      with ms nr have "literals node \<subseteq> dom weights" "v = circuit_value ?w node"
        unfolding memo_sound_def by blast+
      with Some ms show ?thesis by (simp add: wmc_visit.simps)
    next
      case None
      from f nr have kinds: "is_false node \<or> is_true node \<or> is_literal node \<or> is_decision node"
        unfolding four_variants_def by blast
      have upd: "memo_sound rt weights (m(node_id node \<mapsto> v))"
        if "memo_sound rt weights m" "literals node \<subseteq> dom weights"
          "v = circuit_value ?w node" for m v
        unfolding memo_sound_def
      proof (intro ballI allI impI)
        fix x y
        assume x: "x \<in> set (subnodes rt)" "(m(node_id node \<mapsto> v)) (node_id x) = Some y"
        show "literals x \<subseteq> dom weights \<and> y = circuit_value ?w x"
        proof (cases "node_id x = node_id node")
          case True
          with u x(1) nr have "x = node" unfolding unique_ids_def by blast
          with x(2) that show ?thesis by simp
        next
          case False
          with x that(1) show ?thesis unfolding memo_sound_def by simp
        qed
      qed
      consider (false) "is_false node"
        | (true) "\<not> is_false node" "is_true node"
        | (lit) "\<not> is_false node" "\<not> is_true node" "is_literal node"
        | (dec) "\<not> is_false node" "\<not> is_true node" "\<not> is_literal node" "is_decision node"
        using kinds by blast
      then show ?thesis
      proof cases
        case false
        then have "literals node = {}"
          by (subst literals_unfold) (auto simp: is_false_def is_literal_def is_decision_def)
        with false None ms show ?thesis
          by (simp add: wmc_visit.simps circuit_value.simps)
      next
        case true
        then have "literals node = {}"
          by (subst literals_unfold) (auto simp: is_true_def is_literal_def is_decision_def)
        with true None ms show ?thesis
          by (simp add: wmc_visit.simps circuit_value.simps)
      next
        case lit
        then have l: "literals node = {literal node}"
          by (subst literals_unfold) (auto simp: is_literal_def is_decision_def)
        show ?thesis
        proof (cases "weights (literal node)")
          case None
          with l lit \<open>memo (node_id node) = None\<close> show ?thesis
            by (auto simp: wmc_visit.simps)
        next
          case (Some x)
          with l have sub: "literals node \<subseteq> dom weights" by auto
          from lit Some have v: "x = circuit_value ?w node"
            by (simp add: circuit_value.simps total_weights_def)
          from upd [OF ms sub v] lit Some \<open>memo (node_id node) = None\<close> sub v
          show ?thesis by (simp add: wmc_visit.simps)
        qed
      next
        case dec
        then have l: "literals node = (\<Union>(p, s)\<in>set (elements node). literals p \<union> literals s)"
          by (subst literals_unfold) (auto simp: is_literal_def is_decision_def)
        have ch: "\<forall>(p, s)\<in>set (elements node). p \<in> set (subnodes rt) \<and> s \<in> set (subnodes rt)"
        proof (clarify, intro conjI)
          fix p s
          assume e: "(p, s) \<in> set (elements node)"
          from subnodes_child(1) [OF dec(4) e] subnodes_self [of p] subnodes_trans [OF nr]
          show "p \<in> set (subnodes rt)" by blast
          from subnodes_child(2) [OF dec(4) e] subnodes_self [of s] subnodes_trans [OF nr]
          show "s \<in> set (subnodes rt)" by blast
        qed
        note ih = "1.IH" [OF None dec u f ch ms]
        have all_iff: "(\<forall>(p, s)\<in>set (elements node).
              literals p \<subseteq> dom weights \<and> literals s \<subseteq> dom weights)
            = (literals node \<subseteq> dom weights)"
          unfolding l by auto
        show ?thesis
        proof (cases "literals node \<subseteq> dom weights")
          case True
          with ih all_iff obtain memo' where
            r: "wmc_elements (elements node) weights 0 memo
                = (Inr (0 + (\<Sum>(p, s)\<leftarrow>elements node.
                     circuit_value ?w p * circuit_value ?w s)), memo')"
            and ms': "memo_sound rt weights memo'"
            by blast
          from dec have v: "(\<Sum>(p, s)\<leftarrow>elements node. circuit_value ?w p * circuit_value ?w s)
              = circuit_value ?w node"
            by (subst (3) circuit_value.simps) simp
          from upd [OF ms' True v] r v dec None True
          show ?thesis by (simp add: wmc_visit.simps)
        next
          case False
          with ih all_iff obtain memo' where
            "wmc_elements (elements node) weights 0 memo = (Inl MissingWeight, memo')"
            by blast
          with dec None False show ?thesis by (simp add: wmc_visit.simps)
        qed
      qed
    qed
  qed
next
  case (2 weights tot memo)
  then show ?case by simp
next
  case (3 prime sub rest weights tot memo)
  let ?w = "total_weights weights"
  show ?case
  proof -
    note u = "3.prems"(1) and f = "3.prems"(2) and ch = "3.prems"(3) and ms = "3.prems"(4)
    from ch have pr: "prime \<in> set (subnodes rt)" and sr: "sub \<in> set (subnodes rt)"
      and ch': "\<forall>(p, s)\<in>set rest. p \<in> set (subnodes rt) \<and> s \<in> set (subnodes rt)"
      by auto
    note ih1 = "3.IH"(1) [OF u f pr ms]
    show "((\<forall>(p, s)\<in>set ((prime, sub) # rest).
              literals p \<subseteq> dom weights \<and> literals s \<subseteq> dom weights) \<longrightarrow>
           (\<exists>memo'. wmc_elements ((prime, sub) # rest) weights tot memo
                      = (Inr (tot + (\<Sum>(p, s)\<leftarrow>(prime, sub) # rest.
                             circuit_value ?w p * circuit_value ?w s)), memo')
                   \<and> memo_sound rt weights memo'))
        \<and> (\<not> (\<forall>(p, s)\<in>set ((prime, sub) # rest).
                literals p \<subseteq> dom weights \<and> literals s \<subseteq> dom weights) \<longrightarrow>
           (\<exists>memo'. wmc_elements ((prime, sub) # rest) weights tot memo
                      = (Inl MissingWeight, memo')))"
    proof (cases "literals prime \<subseteq> dom weights")
      case False
      with ih1 obtain m1 where "wmc_visit prime weights memo = (Inl MissingWeight, m1)"
        by blast
      with False show ?thesis by simp
    next
      case True
      with ih1 obtain m1 where
        p: "wmc_visit prime weights memo = (Inr (circuit_value ?w prime), m1)"
        and ms1: "memo_sound rt weights m1"
        by blast
      note ih2 = "3.IH"(2) [OF p [symmetric] refl u f sr ms1]
      show ?thesis
      proof (cases "literals sub \<subseteq> dom weights")
        case False
        with ih2 obtain m2 where "wmc_visit sub weights m1 = (Inl MissingWeight, m2)"
          by blast
        with False p show ?thesis by simp
      next
        case sTrue: True
        with ih2 obtain m2 where
          s: "wmc_visit sub weights m1 = (Inr (circuit_value ?w sub), m2)"
          and ms2: "memo_sound rt weights m2"
          by blast
        note ih3 = "3.IH"(3) [OF p [symmetric] refl s [symmetric] refl u f ch' ms2]
        from ih3 p s True sTrue show ?thesis by (simp add: add.assoc)
      qed
    qed
  qed
qed

lemma subnodes_wmc_example:
  "subnodes wmc_example =
     [wmc_example, literal_node 1 1, literal_node 2 2, literal_node 3 (- 1), literal_node 4 3]"
  by (simp add: wmc_example_def decision_node_def literal_node_def subnodes.simps
        is_decision_def)

lemma unique_ids_wmc_example: "unique_ids wmc_example"
  unfolding unique_ids_def subnodes_wmc_example
  by (simp add: wmc_example_def decision_node_def literal_node_def)

lemma four_variants_wmc_example: "four_variants wmc_example"
  unfolding four_variants_def subnodes_wmc_example
  by (simp add: wmc_example_def decision_node_def literal_node_def
        is_decision_def is_literal_def)

lemma literals_filter: "literals n = literal ` set (filter is_literal (subnodes n))"
  by (simp add: literals_def)

lemma literals_wmc_example: "literals wmc_example = {1, 2, - 1, 3}"
  unfolding literals_filter subnodes_wmc_example
  by (simp add: wmc_example_def decision_node_def literal_node_def is_literal_def insert_commute)



text \<open>
  Claim C4. When a literal reachable from the root has no entry in \<open>weights\<close>, the
  count fails with \<open>MissingWeight\<close>; no default value stands in. The circuit is one of
  the data model: its nodes have unique ids and are of the four variants.
\<close>

theorem missing_weight_is_reported:
  assumes "unique_ids rt" "four_variants rt" "l \<in> literals rt" "weights l = None"
  shows "weighted_model_count rt weights = Inl MissingWeight"
proof -
  have ms: "memo_sound rt weights Map.empty" by (simp add: memo_sound_def)
  from assms(3,4) have "\<not> literals rt \<subseteq> dom weights" by auto
  with wmc_sound_aux(1) [OF assms(1,2) subnodes_self ms]
  obtain memo' where "wmc_visit rt weights Map.empty = (Inl MissingWeight, memo')" by blast
  then show ?thesis by (simp add: weighted_model_count_def)
qed

theorem missing_weight_is_reported_witness:
  "unique_ids wmc_example \<and> four_variants wmc_example \<and> 3 \<in> literals wmc_example
   \<and> weights_partial 3 = None
   \<and> weighted_model_count wmc_example weights_partial = Inl MissingWeight"
proof -
  have l: "3 \<in> literals wmc_example" by (simp add: literals_wmc_example)
  have w: "weights_partial 3 = None" by (simp add: weights_partial_def)
  from missing_weight_is_reported [of wmc_example 3 weights_partial,
      OF unique_ids_wmc_example four_variants_wmc_example l w]
    unique_ids_wmc_example four_variants_wmc_example l w
  show ?thesis by simp
qed

lemma finite_vars: "finite (vars n)"
  by (simp add: vars_def literals_filter)

lemma vars_unfold:
  "vars n =
     (if is_literal n then {nat \<bar>literal n\<bar>} else {})
     \<union> (if is_decision n then (\<Union>(p, s)\<in>set (elements n). vars p \<union> vars s) else {})"
  unfolding vars_def by (subst literals_unfold) (auto simp: image_Un image_UN)

lemma vars_child:
  assumes "is_decision n" "(p, s) \<in> set (elements n)"
  shows "vars p \<subseteq> vars n" and "vars s \<subseteq> vars n"
  using assms by (subst (2) vars_unfold; force)+

lemma sat_restrict: "vars n \<subseteq> X \<Longrightarrow> sat (T \<inter> X) n = sat T n"
proof (induction T n arbitrary: X rule: sat.induct)
  case (1 T n)
  consider (false) "is_false n"
    | (true) "\<not> is_false n" "is_true n"
    | (lit) "\<not> is_false n" "\<not> is_true n" "is_literal n"
    | (dec) "\<not> is_false n" "\<not> is_true n" "\<not> is_literal n" "is_decision n"
    | (other) "\<not> is_false n" "\<not> is_true n" "\<not> is_literal n" "\<not> is_decision n"
    by blast
  then show ?case
  proof cases
    case false
    then show ?thesis by (simp add: sat.simps)
  next
    case true
    then show ?thesis by (simp add: sat.simps)
  next
    case lit
    then have "nat \<bar>literal n\<bar> \<in> vars n" by (subst vars_unfold) simp
    with "1.prems" have "nat \<bar>literal n\<bar> \<in> X" by blast
    with lit show ?thesis
      by (subst sat.simps, subst (2) sat.simps) (auto simp: abs_if split: if_splits)
  next
    case dec
    have "sat (T \<inter> X) p = sat T p \<and> sat (T \<inter> X) s = sat T s"
      if e: "(p, s) \<in> set (elements n)" for p s
    proof -
      from vars_child [OF dec(4) e] "1.prems" have "vars p \<subseteq> X" "vars s \<subseteq> X" by blast+
      with "1.IH"(1) [OF dec e refl] "1.IH"(2) [OF dec e refl] show ?thesis by blast
    qed
    then have "(\<exists>(p, s)\<in>set (elements n). sat (T \<inter> X) p \<and> sat (T \<inter> X) s)
        = (\<exists>(p, s)\<in>set (elements n). sat T p \<and> sat T s)"
      by fastforce
    with dec show ?thesis by (subst sat.simps, subst (2) sat.simps) simp
  next
    case other
    then show ?thesis by (simp add: sat.simps)
  qed
qed

lemma model_sum_False [simp]: "model_sum w X (\<lambda>T. False) = 0"
  by (simp add: model_sum_def)

lemma model_sum_cong:
  "(\<And>T. T \<subseteq> X \<Longrightarrow> \<phi> T = \<psi> T) \<Longrightarrow> model_sum w X \<phi> = model_sum w X \<psi>"
  unfolding model_sum_def by (rule sum.cong) auto

lemma model_sum_product:
  assumes fin: "finite A" "finite B" and disj: "A \<inter> B = {}"
    and dep1: "\<And>T. \<phi> (T \<inter> A) = \<phi> T" and dep2: "\<And>T. \<psi> (T \<inter> B) = \<psi> T"
  shows "model_sum w (A \<union> B) (\<lambda>T. \<phi> T \<and> \<psi> T) = model_sum w A \<phi> * model_sum w B \<psi>"
proof -
  let ?g = "\<lambda>(S, U). S \<union> U"
  let ?f = "\<lambda>T. if \<phi> T \<and> \<psi> T then (\<Prod>v\<in>A \<union> B. lit_weight w T v) else 0"
  have img: "Pow (A \<union> B) = ?g ` (Pow A \<times> Pow B)"
  proof
    show "Pow (A \<union> B) \<subseteq> ?g ` (Pow A \<times> Pow B)"
    proof
      fix T assume "T \<in> Pow (A \<union> B)"
      then have "T = ?g (T \<inter> A, T \<inter> B)" "(T \<inter> A, T \<inter> B) \<in> Pow A \<times> Pow B" by auto
      then show "T \<in> ?g ` (Pow A \<times> Pow B)" by (rule image_eqI)
    qed
    show "?g ` (Pow A \<times> Pow B) \<subseteq> Pow (A \<union> B)" by auto
  qed
  have inj: "inj_on ?g (Pow A \<times> Pow B)"
  proof (rule inj_onI)
    fix x y
    assume x: "x \<in> Pow A \<times> Pow B" and y: "y \<in> Pow A \<times> Pow B" and e: "?g x = ?g y"
    obtain S U where xs: "x = (S, U)" by (cases x)
    obtain S' U' where ys: "y = (S', U')" by (cases y)
    from x y xs ys have sub: "S \<subseteq> A" "U \<subseteq> B" "S' \<subseteq> A" "U' \<subseteq> B" by auto
    from e xs ys have eq: "S \<union> U = S' \<union> U'" by simp
    from sub disj have "S = (S \<union> U) \<inter> A" "S' = (S' \<union> U') \<inter> A"
      "U = (S \<union> U) \<inter> B" "U' = (S' \<union> U') \<inter> B"
      by blast+
    with eq have "S = S'" "U = U'" by metis+
    with xs ys show "x = y" by simp
  qed
  have prod_term: "?f (S \<union> U) =
      (if \<phi> S then (\<Prod>v\<in>A. lit_weight w S v) else 0)
      * (if \<psi> U then (\<Prod>v\<in>B. lit_weight w U v) else 0)"
    if "S \<subseteq> A" "U \<subseteq> B" for S U
  proof -
    from that disj have sa: "(S \<union> U) \<inter> A = S" and ub: "(S \<union> U) \<inter> B = U" by blast+
    from dep1 [of "S \<union> U"] sa have p: "\<phi> (S \<union> U) = \<phi> S" by simp
    from dep2 [of "S \<union> U"] ub have q: "\<psi> (S \<union> U) = \<psi> U" by simp
    have "(\<Prod>v\<in>A \<union> B. lit_weight w (S \<union> U) v)
        = (\<Prod>v\<in>A. lit_weight w (S \<union> U) v) * (\<Prod>v\<in>B. lit_weight w (S \<union> U) v)"
      using fin disj by (rule prod.union_disjoint)
    moreover have "(\<Prod>v\<in>A. lit_weight w (S \<union> U) v) = (\<Prod>v\<in>A. lit_weight w S v)"
    proof (rule prod.cong [OF refl])
      fix v assume "v \<in> A"
      with that disj have "v \<notin> U" by blast
      then show "lit_weight w (S \<union> U) v = lit_weight w S v" by (simp add: lit_weight_def)
    qed
    moreover have "(\<Prod>v\<in>B. lit_weight w (S \<union> U) v) = (\<Prod>v\<in>B. lit_weight w U v)"
    proof (rule prod.cong [OF refl])
      fix v assume "v \<in> B"
      with that disj have "v \<notin> S" by blast
      then show "lit_weight w (S \<union> U) v = lit_weight w U v" by (simp add: lit_weight_def)
    qed
    ultimately show ?thesis using p q by simp
  qed
  have "model_sum w (A \<union> B) (\<lambda>T. \<phi> T \<and> \<psi> T) = (\<Sum>T\<in>?g ` (Pow A \<times> Pow B). ?f T)"
    unfolding model_sum_def img [symmetric] ..
  also have "\<dots> = (\<Sum>x\<in>Pow A \<times> Pow B. ?f (?g x))"
    using inj by (simp add: sum.reindex)
  also have "\<dots> = (\<Sum>x\<in>Pow A \<times> Pow B.
      (if \<phi> (fst x) then (\<Prod>v\<in>A. lit_weight w (fst x) v) else 0)
      * (if \<psi> (snd x) then (\<Prod>v\<in>B. lit_weight w (snd x) v) else 0))"
  proof (rule sum.cong [OF refl])
    fix x assume "x \<in> Pow A \<times> Pow B"
    then obtain S U where x: "x = (S, U)" and su: "S \<subseteq> A" "U \<subseteq> B" by auto
    from prod_term [OF su] show "?f (?g x) =
      (if \<phi> (fst x) then (\<Prod>v\<in>A. lit_weight w (fst x) v) else 0)
      * (if \<psi> (snd x) then (\<Prod>v\<in>B. lit_weight w (snd x) v) else 0)"
      unfolding x by (simp only: split_conv fst_conv snd_conv)
  qed
  also have "\<dots> = (\<Sum>S\<in>Pow A. \<Sum>U\<in>Pow B.
      (if \<phi> S then (\<Prod>v\<in>A. lit_weight w S v) else 0)
      * (if \<psi> U then (\<Prod>v\<in>B. lit_weight w U v) else 0))"
    by (simp add: sum.cartesian_product case_prod_unfold)
  also have "\<dots> = model_sum w A \<phi> * model_sum w B \<psi>"
    unfolding model_sum_def by (simp add: sum_product)
  finally show ?thesis .
qed

lemma model_sum_or:
  assumes "\<And>T. T \<subseteq> X \<Longrightarrow> \<not> (\<phi> T \<and> \<psi> T)"
  shows "model_sum w X (\<lambda>T. \<phi> T \<or> \<psi> T) = model_sum w X \<phi> + model_sum w X \<psi>"
proof -
  have "(\<Sum>T\<in>Pow X. if \<phi> T \<or> \<psi> T then (\<Prod>v\<in>X. lit_weight w T v) else 0)
      = (\<Sum>T\<in>Pow X. (if \<phi> T then (\<Prod>v\<in>X. lit_weight w T v) else 0)
                    + (if \<psi> T then (\<Prod>v\<in>X. lit_weight w T v) else 0))"
  proof (rule sum.cong [OF refl])
    fix T assume "T \<in> Pow X"
    with assms [of T] show "(if \<phi> T \<or> \<psi> T then (\<Prod>v\<in>X. lit_weight w T v) else 0)
        = (if \<phi> T then (\<Prod>v\<in>X. lit_weight w T v) else 0)
          + (if \<psi> T then (\<Prod>v\<in>X. lit_weight w T v) else 0)"
      by auto
  qed
  then show ?thesis by (simp add: model_sum_def sum.distrib)
qed

lemma model_sum_exclusive:
  assumes "\<forall>T\<in>Pow X. length (filter (\<lambda>\<phi>. \<phi> T) \<phi>s) \<le> 1"
  shows "model_sum w X (\<lambda>T. \<exists>\<phi>\<in>set \<phi>s. \<phi> T) = (\<Sum>\<phi>\<leftarrow>\<phi>s. model_sum w X \<phi>)"
  using assms
proof (induction \<phi>s)
  case Nil
  show ?case by simp
next
  case (Cons \<phi> \<phi>s)
  have tail: "\<forall>T\<in>Pow X. length (filter (\<lambda>\<phi>. \<phi> T) \<phi>s) \<le> 1"
  proof
    fix T assume "T \<in> Pow X"
    with Cons.prems have "length (filter (\<lambda>\<phi>. \<phi> T) (\<phi> # \<phi>s)) \<le> 1" by blast
    moreover have "length (filter (\<lambda>\<phi>. \<phi> T) \<phi>s) \<le> length (filter (\<lambda>\<phi>. \<phi> T) (\<phi> # \<phi>s))"
      by simp
    ultimately show "length (filter (\<lambda>\<phi>. \<phi> T) \<phi>s) \<le> 1" by linarith
  qed
  have excl: "\<not> (\<phi> T \<and> (\<exists>\<psi>\<in>set \<phi>s. \<psi> T))" if "T \<subseteq> X" for T
  proof
    assume a: "\<phi> T \<and> (\<exists>\<psi>\<in>set \<phi>s. \<psi> T)"
    then have "filter (\<lambda>\<phi>. \<phi> T) \<phi>s \<noteq> []" by (auto simp: filter_empty_conv)
    then have "0 < length (filter (\<lambda>\<phi>. \<phi> T) \<phi>s)" by simp
    moreover from a have "length (filter (\<lambda>\<phi>. \<phi> T) (\<phi> # \<phi>s))
        = Suc (length (filter (\<lambda>\<phi>. \<phi> T) \<phi>s))"
      by simp
    moreover from Cons.prems that have "length (filter (\<lambda>\<phi>. \<phi> T) (\<phi> # \<phi>s)) \<le> 1"
      by blast
    ultimately show False by linarith
  qed
  have "model_sum w X (\<lambda>T. \<exists>\<psi>\<in>set (\<phi> # \<phi>s). \<psi> T)
      = model_sum w X (\<lambda>T. \<phi> T \<or> (\<exists>\<psi>\<in>set \<phi>s. \<psi> T))"
    by simp
  also have "\<dots> = model_sum w X \<phi> + model_sum w X (\<lambda>T. \<exists>\<psi>\<in>set \<phi>s. \<psi> T)"
    by (rule model_sum_or) (rule excl)
  also have "\<dots> = (\<Sum>\<psi>\<leftarrow>\<phi> # \<phi>s. model_sum w X \<psi>)"
    using Cons.IH [OF tail] by simp
  finally show ?case .
qed

lemma model_sum_empty: "model_sum w {} \<phi> = (if \<phi> {} then 1 else 0)"
  by (simp add: model_sum_def)

lemma model_sum_single:
  "model_sum w {v} \<phi> =
     (if \<phi> {} then w (- int v) else 0) + (if \<phi> {v} then w (int v) else 0)"
proof -
  have "Pow {v} = {{}, {v}}" by auto
  then show ?thesis by (simp add: model_sum_def lit_weight_def)
qed

lemma decision_not_others:
  "is_decision n \<Longrightarrow> \<not> is_false n \<and> \<not> is_true n \<and> \<not> is_literal n"
  by (simp add: is_decision_def is_false_def is_true_def is_literal_def)

lemma sat_decision:
  "is_decision n \<Longrightarrow> sat T n = (\<exists>(p, s)\<in>set (elements n). sat T p \<and> sat T s)"
  using decision_not_others [of n] by (subst sat.simps) simp

lemma smooth_dd_decision:
  "is_decision n \<Longrightarrow>
   smooth_dd n =
     ((\<forall>(p, s)\<in>set (elements n).
          is_false p \<or> is_false s
          \<or> (smooth_dd p \<and> smooth_dd s \<and> vars p \<inter> vars s = {}
              \<and> vars p \<union> vars s = vars n))
      \<and> (\<forall>T\<in>Pow (vars n).
            length (filter (\<lambda>(p, s). sat T p \<and> sat T s) (elements n)) \<le> 1))"
  by (subst smooth_dd.simps) simp

lemma smooth_dd_literal: "is_literal n \<Longrightarrow> smooth_dd n = (literal n \<noteq> 0)"
  by (subst smooth_dd.simps) (simp add: is_literal_def is_decision_def)

lemma smooth_dd_other:
  "\<not> is_decision n \<Longrightarrow> \<not> is_literal n \<Longrightarrow> smooth_dd n = (is_false n \<or> is_true n)"
  by (subst smooth_dd.simps) simp

lemma circuit_value_is_model_sum:
  "smooth_dd n \<Longrightarrow> circuit_value w n = model_sum w (vars n) (\<lambda>T. sat T n)"
proof (induction w n rule: circuit_value.induct)
  case (1 w n)
  consider (false) "is_false n"
    | (true) "\<not> is_false n" "is_true n"
    | (lit) "\<not> is_false n" "\<not> is_true n" "is_literal n"
    | (dec) "\<not> is_false n" "\<not> is_true n" "\<not> is_literal n" "is_decision n"
    | (other) "\<not> is_false n" "\<not> is_true n" "\<not> is_literal n" "\<not> is_decision n"
    by blast
  then show ?case
  proof cases
    case false
    then have "sat T n = False" for T by (simp add: sat.simps)
    with false show ?thesis by (simp add: circuit_value.simps)
  next
    case true
    then have "sat T n = True" for T by (simp add: sat.simps)
    moreover from true have "vars n = {}"
      by (subst vars_unfold) (auto simp: is_true_def is_literal_def is_decision_def)
    ultimately show ?thesis using true by (simp add: circuit_value.simps model_sum_empty)
  next
    case lit
    then have v: "vars n = {nat \<bar>literal n\<bar>}"
      by (subst vars_unfold) (auto simp: is_literal_def is_decision_def)
    from lit "1.prems" have nz: "literal n \<noteq> 0"
      by (simp add: smooth_dd_literal)
    have s: "sat T n = (if 0 < literal n then nat (literal n) \<in> T else nat (- literal n) \<notin> T)"
      for T
      using lit by (simp add: sat.simps)
    show ?thesis
    proof (cases "0 < literal n")
      case True
      with lit v s show ?thesis by (simp add: circuit_value.simps model_sum_single)
    next
      case False
      with nz have neg: "literal n < 0" by simp
      then have "\<bar>literal n\<bar> = - literal n" by simp
      with lit v s neg show ?thesis by (simp add: circuit_value.simps model_sum_single)
    qed
  next
    case dec
    let ?X = "vars n"
    let ?phi = "\<lambda>(p, s). \<lambda>T. sat T p \<and> sat T s"
    from dec "1.prems" have el: "\<forall>(p, s)\<in>set (elements n).
            is_false p \<or> is_false s
            \<or> (smooth_dd p \<and> smooth_dd s \<and> vars p \<inter> vars s = {}
                \<and> vars p \<union> vars s = vars n)"
      and det: "\<forall>T\<in>Pow (vars n).
              length (filter (\<lambda>(p, s). sat T p \<and> sat T s) (elements n)) \<le> 1"
      by (simp_all add: smooth_dd_decision)
    have each: "circuit_value w p * circuit_value w s = model_sum w ?X (?phi (p, s))"
      if e: "(p, s) \<in> set (elements n)" for p s
    proof -
      from el e consider (fp) "is_false p" | (fs) "is_false s"
        | (ok) "smooth_dd p" "smooth_dd s" "vars p \<inter> vars s = {}" "vars p \<union> vars s = vars n"
        by blast
      then show ?thesis
      proof cases
        case fp
        then have "sat T p = False" for T by (simp add: sat.simps)
        with fp show ?thesis by (simp add: circuit_value.simps [of w p])
      next
        case fs
        then have "sat T s = False" for T by (simp add: sat.simps)
        with fs show ?thesis by (simp add: circuit_value.simps [of w s])
      next
        case ok
        from "1.IH"(1) [OF dec e refl ok(1)]
        have vp: "circuit_value w p = model_sum w (vars p) (\<lambda>T. sat T p)" .
        from "1.IH"(2) [OF dec e refl ok(2)]
        have vs: "circuit_value w s = model_sum w (vars s) (\<lambda>T. sat T s)" .
        have "model_sum w (vars p \<union> vars s) (\<lambda>T. sat T p \<and> sat T s)
            = model_sum w (vars p) (\<lambda>T. sat T p) * model_sum w (vars s) (\<lambda>T. sat T s)"
          by (rule model_sum_product [OF finite_vars finite_vars ok(3)])
             (simp_all add: sat_restrict)
        with vp vs ok(4) show ?thesis by simp
      qed
    qed
    have "circuit_value w n = (\<Sum>(p, s)\<leftarrow>elements n. circuit_value w p * circuit_value w s)"
      using dec by (subst circuit_value.simps) simp
    also have "\<dots> = (\<Sum>e\<leftarrow>elements n. model_sum w ?X (?phi e))"
    proof -
      have "map (\<lambda>(p, s). circuit_value w p * circuit_value w s) (elements n)
          = map (\<lambda>e. model_sum w ?X (?phi e)) (elements n)"
        by (rule map_cong [OF refl]) (use each in auto)
      then show ?thesis by (rule arg_cong [where f = sum_list])
    qed
    also have "\<dots> = (\<Sum>\<phi>\<leftarrow>map ?phi (elements n). model_sum w ?X \<phi>)"
      by (simp add: comp_def)
    also have "\<dots> = model_sum w ?X (\<lambda>T. \<exists>\<phi>\<in>set (map ?phi (elements n)). \<phi> T)"
    proof (rule model_sum_exclusive [symmetric], rule ballI)
      fix T assume T: "T \<in> Pow ?X"
      have "filter (\<lambda>\<phi>. \<phi> T) (map ?phi (elements n))
          = map ?phi (filter (\<lambda>(p, s). sat T p \<and> sat T s) (elements n))"
        by (simp add: filter_map comp_def case_prod_unfold)
      with det T show "length (filter (\<lambda>\<phi>. \<phi> T) (map ?phi (elements n))) \<le> 1"
        by simp
    qed
    also have "\<dots> = model_sum w ?X (\<lambda>T. sat T n)"
    proof (rule model_sum_cong)
      fix T
      from dec show "(\<exists>\<phi>\<in>set (map ?phi (elements n)). \<phi> T) = sat T n"
        by (auto simp: sat_decision)
    qed
    finally show ?thesis .
  next
    case other
    with "1.prems" show ?thesis by (simp add: smooth_dd_other)
  qed
qed

lemma model_sum_insert:
  assumes "finite X" "v \<notin> X"
  shows "model_sum w (insert v X) \<phi> =
           w (int v) * model_sum w X (\<lambda>T. \<phi> (insert v T)) + w (- int v) * model_sum w X \<phi>"
proof -
  let ?f = "\<lambda>T. if \<phi> T then (\<Prod>u\<in>insert v X. lit_weight w T u) else 0"
  have pw: "Pow (insert v X) = Pow X \<union> insert v ` Pow X" by (rule Pow_insert)
  have dj: "Pow X \<inter> insert v ` Pow X = {}" using assms(2) by auto
  have inj: "inj_on (insert v) (Pow X)"
  proof (rule inj_onI)
    fix S U assume a: "S \<in> Pow X" "U \<in> Pow X" "insert v S = insert v U"
    with assms(2) have "v \<notin> S" "v \<notin> U" by auto
    then have "S = insert v S - {v}" "U = insert v U - {v}" by auto
    with a(3) show "S = U" by metis
  qed
  have fin: "finite (Pow X)" "finite (insert v ` Pow X)" using assms(1) by simp_all
  have out: "?f T = w (- int v) * (if \<phi> T then (\<Prod>u\<in>X. lit_weight w T u) else 0)"
    if "T \<in> Pow X" for T
  proof -
    from that assms(2) have "v \<notin> T" by blast
    with assms show ?thesis by (simp add: lit_weight_def)
  qed
  have inn: "?f (insert v T)
      = w (int v) * (if \<phi> (insert v T) then (\<Prod>u\<in>X. lit_weight w T u) else 0)"
    if "T \<in> Pow X" for T
  proof -
    have "(\<Prod>u\<in>X. lit_weight w (insert v T) u) = (\<Prod>u\<in>X. lit_weight w T u)"
    proof (rule prod.cong [OF refl])
      fix u assume "u \<in> X"
      with assms(2) have "u \<noteq> v" by blast
      then show "lit_weight w (insert v T) u = lit_weight w T u" by (simp add: lit_weight_def)
    qed
    with assms show ?thesis by (simp add: lit_weight_def)
  qed
  have "model_sum w (insert v X) \<phi> = (\<Sum>T\<in>Pow X. ?f T) + (\<Sum>T\<in>insert v ` Pow X. ?f T)"
    unfolding model_sum_def pw by (rule sum.union_disjoint [OF fin dj])
  also have "(\<Sum>T\<in>insert v ` Pow X. ?f T) = (\<Sum>T\<in>Pow X. ?f (insert v T))"
    using inj by (simp add: sum.reindex)
  also have "(\<Sum>T\<in>Pow X. ?f (insert v T))
      = (\<Sum>T\<in>Pow X. w (int v) * (if \<phi> (insert v T) then (\<Prod>u\<in>X. lit_weight w T u) else 0))"
    by (rule sum.cong [OF refl]) (rule inn)
  also have "(\<Sum>T\<in>Pow X. ?f T)
      = (\<Sum>T\<in>Pow X. w (- int v) * (if \<phi> T then (\<Prod>u\<in>X. lit_weight w T u) else 0))"
    by (rule sum.cong [OF refl]) (rule out)
  finally show ?thesis by (simp add: model_sum_def sum_distrib_left)
qed

lemma circuit_value_cong:
  "\<forall>l\<in>literals n. w l = w' l \<Longrightarrow> circuit_value w n = circuit_value w' n"
proof (induction w n rule: circuit_value.induct)
  case (1 w n)
  show ?case
  proof (cases "is_decision n")
    case True
    note d = decision_not_others [OF True]
    have "map (\<lambda>(p, s). circuit_value w p * circuit_value w s) (elements n)
        = map (\<lambda>(p, s). circuit_value w' p * circuit_value w' s) (elements n)"
    proof (rule map_cong [OF refl], clarify)
      fix p s assume e: "(p, s) \<in> set (elements n)"
      with True have "literals p \<subseteq> literals n" "literals s \<subseteq> literals n"
        by (subst (2) literals_unfold; force)+
      with "1.prems" have "\<forall>l\<in>literals p. w l = w' l" "\<forall>l\<in>literals s. w l = w' l" by blast+
      with "1.IH"(1) [OF _ _ _ True e refl] "1.IH"(2) [OF _ _ _ True e refl] d
      show "circuit_value w p * circuit_value w s = circuit_value w' p * circuit_value w' s"
        by simp
    qed
    then have "(\<Sum>(p, s)\<leftarrow>elements n. circuit_value w p * circuit_value w s)
        = (\<Sum>(p, s)\<leftarrow>elements n. circuit_value w' p * circuit_value w' s)"
      by (rule arg_cong [where f = sum_list])
    with True d show ?thesis
      by (subst circuit_value.simps, subst (2) circuit_value.simps) simp
  next
    case False
    show ?thesis
    proof (cases "is_literal n")
      case True
      then have "literal n \<in> literals n" by (subst literals_unfold) simp
      with "1.prems" have "w (literal n) = w' (literal n)" by blast
      with True False show ?thesis
        by (subst circuit_value.simps, subst (2) circuit_value.simps) simp
    next
      case nl: False
      with False show ?thesis
        by (subst circuit_value.simps, subst (2) circuit_value.simps) simp
    qed
  qed
qed

lemma subnodes_unsmooth_example:
  "subnodes unsmooth_example =
     [unsmooth_example, literal_node 1 1, true_node 2, literal_node 3 (- 1), literal_node 4 2]"
  by (simp add: unsmooth_example_def decision_node_def literal_node_def true_node_def
        subnodes.simps is_decision_def)

lemma unique_ids_unsmooth_example: "unique_ids unsmooth_example"
  unfolding unique_ids_def subnodes_unsmooth_example
  by (simp add: unsmooth_example_def decision_node_def literal_node_def true_node_def)

lemma four_variants_unsmooth_example: "four_variants unsmooth_example"
  unfolding four_variants_def subnodes_unsmooth_example
  by (simp add: unsmooth_example_def decision_node_def literal_node_def true_node_def
        is_decision_def is_literal_def is_true_def)

lemma literals_unsmooth_example: "literals unsmooth_example = {1, - 1, 2}"
  unfolding literals_filter subnodes_unsmooth_example
  by (simp add: unsmooth_example_def decision_node_def literal_node_def true_node_def
        is_literal_def insert_commute)

lemma vars_unsmooth_example: "vars unsmooth_example = {1, 2}"
  by (auto simp: vars_def literals_unsmooth_example)

lemma sat_unsmooth_example:
  "sat T unsmooth_example = (1 \<in> T \<or> (1 \<notin> T \<and> 2 \<in> T))"
  by (simp add: sat.simps unsmooth_example_def decision_node_def literal_node_def true_node_def
        is_false_def is_true_def is_literal_def is_decision_def)

lemma wmc_unsmooth_example: "weighted_model_count unsmooth_example weights_unit = Inr 2"
  by (simp add: weighted_model_count_def unsmooth_example_def decision_node_def
        literal_node_def true_node_def wmc_visit.simps weights_unit_def is_false_def
        is_true_def is_literal_def is_decision_def)

lemma model_sum_unsmooth_example:
  "model_sum (total_weights weights_unit) (vars unsmooth_example) (\<lambda>T. sat T unsmooth_example)
     = 3"
  unfolding vars_unsmooth_example sat_unsmooth_example
  by (simp add: model_sum_insert model_sum_empty total_weights_def weights_unit_def)

lemma vars_shared_example: "vars shared_example = {1, 2}"
proof -
  have "literals shared_example = {1, 2, - 1}"
    unfolding literals_filter subnodes_shared_example
    by (simp add: shared_example_def decision_node_def literal_node_def is_literal_def
          insert_commute)
  then show ?thesis by (auto simp: vars_def)
qed

lemma vars_literal_node: "vars (literal_node i l) = {nat \<bar>l\<bar>}"
  by (subst vars_unfold) (simp add: literal_node_def is_literal_def is_decision_def)

lemma sat_literal_node:
  "sat T (literal_node i l) = (if 0 < l then nat l \<in> T else nat (- l) \<notin> T)"
  by (simp add: sat.simps literal_node_def is_false_def is_true_def is_literal_def)

lemma smooth_dd_literal_node: "smooth_dd (literal_node i l) = (l \<noteq> 0)"
  by (simp add: smooth_dd_literal literal_node_def is_literal_def)

lemma smooth_dd_shared_example: "smooth_dd shared_example"
proof -
  have d: "is_decision shared_example" by (rule shared_example_fields(1))
  show ?thesis
    unfolding smooth_dd_decision [OF d] vars_shared_example
    by (simp add: shared_example_fields(2) vars_literal_node smooth_dd_literal_node
          sat_literal_node insert_commute)
qed

lemma sat_true_node: "sat T (true_node i) = True"
  by (simp add: sat.simps true_node_def is_false_def is_true_def)

lemma elements_unsmooth_example:
  "elements unsmooth_example =
     [(literal_node 1 1, true_node 2), (literal_node 3 (- 1), literal_node 4 2)]"
  by (simp add: unsmooth_example_def decision_node_def)





lemma circuit_value_equations:
  "is_false n \<Longrightarrow> circuit_value w n = 0"
  "is_true n \<Longrightarrow> circuit_value w n = 1"
  "is_literal n \<Longrightarrow> circuit_value w n = w (literal n)"
  "is_decision n \<Longrightarrow>
     circuit_value w n = (\<Sum>(p, s)\<leftarrow>elements n. circuit_value w p * circuit_value w s)"
  by (subst circuit_value.simps,
      simp add: is_false_def is_true_def is_literal_def is_decision_def)+

text \<open>
  Claim C1, as stated, fails. The circuit for \<open>x1 \<or> (\<not>x1 \<and> x2)\<close> with the elements
  \<open>(x1, True)\<close> and \<open>(\<not>x1, x2)\<close> has unique ids, nodes of the four variants and
  elements that no assignment satisfies together, and every literal has weight 1. The
  recursive equations give 1 \<times> 1 + 1 \<times> 1 = 2, and that is what the count returns; the
  sum over the three satisfying assignments of the two variables is 3.
\<close>

theorem recursive_value_is_not_model_count:
  "unique_ids unsmooth_example \<and> four_variants unsmooth_example
   \<and> literals unsmooth_example \<subseteq> dom weights_unit
   \<and> (\<forall>T. length (filter (\<lambda>(p, s). sat T p \<and> sat T s) (elements unsmooth_example)) \<le> 1)
   \<and> weighted_model_count unsmooth_example weights_unit = Inr 2
   \<and> circuit_value (total_weights weights_unit) unsmooth_example = 2
   \<and> model_sum (total_weights weights_unit) (vars unsmooth_example)
         (\<lambda>T. sat T unsmooth_example) = 3"
proof -
  have l: "literals unsmooth_example \<subseteq> dom weights_unit"
    by (simp add: literals_unsmooth_example weights_unit_def)
  have d: "\<forall>T. length (filter (\<lambda>(p, s). sat T p \<and> sat T s) (elements unsmooth_example)) \<le> 1"
    by (simp add: elements_unsmooth_example sat_literal_node sat_true_node)
  have ms: "memo_sound unsmooth_example weights_unit Map.empty" by (simp add: memo_sound_def)
  from wmc_sound_aux(1) [OF unique_ids_unsmooth_example four_variants_unsmooth_example
      subnodes_self ms] l
  obtain memo' where "wmc_visit unsmooth_example weights_unit Map.empty
      = (Inr (circuit_value (total_weights weights_unit) unsmooth_example), memo')"
    by blast
  then have "weighted_model_count unsmooth_example weights_unit
      = Inr (circuit_value (total_weights weights_unit) unsmooth_example)"
    by (simp add: weighted_model_count_def)
  with wmc_unsmooth_example
  have v: "circuit_value (total_weights weights_unit) unsmooth_example = 2" by simp
  from unique_ids_unsmooth_example four_variants_unsmooth_example l d wmc_unsmooth_example v
    model_sum_unsmooth_example
  show ?thesis by blast
qed

text \<open>
  Claim C1, amended. For a circuit whose nodes have unique ids and are of the four
  variants, and weights that have an entry for every literal of the circuit, the count
  returns the value that the recursive equations determine. When the circuit is moreover
  deterministic, and decomposable and smooth at every element whose prime and sub are
  not the false node, that value is the sum, over the assignments to the circuit's
  variables that satisfy it, of the product of the chosen literal weights.
\<close>

theorem wmc_is_model_count:
  assumes "unique_ids rt" "four_variants rt" "\<forall>l\<in>literals rt. weights l = Some (w l)"
  shows "weighted_model_count rt weights = Inr (circuit_value w rt)
     \<and> (smooth_dd rt \<longrightarrow>
          weighted_model_count rt weights = Inr (model_sum w (vars rt) (\<lambda>T. sat T rt)))"
proof -
  have ms: "memo_sound rt weights Map.empty" by (simp add: memo_sound_def)
  from assms(3) have l: "literals rt \<subseteq> dom weights" by auto
  from wmc_sound_aux(1) [OF assms(1,2) subnodes_self ms] l
  obtain memo' where "wmc_visit rt weights Map.empty
      = (Inr (circuit_value (total_weights weights) rt), memo')"
    by blast
  then have "weighted_model_count rt weights = Inr (circuit_value (total_weights weights) rt)"
    by (simp add: weighted_model_count_def)
  moreover have "circuit_value (total_weights weights) rt = circuit_value w rt"
    by (rule circuit_value_cong) (use assms(3) in \<open>simp add: total_weights_def\<close>)
  ultimately have a: "weighted_model_count rt weights = Inr (circuit_value w rt)" by simp
  with circuit_value_is_model_sum [of rt w] show ?thesis by simp
qed

theorem wmc_is_model_count_witness:
  "unique_ids shared_example \<and> four_variants shared_example
   \<and> literals shared_example \<subseteq> dom weights_full
   \<and> smooth_dd shared_example
   \<and> weighted_model_count shared_example weights_full
       = Inr (circuit_value (total_weights weights_full) shared_example)
   \<and> weighted_model_count shared_example weights_full
       = Inr (model_sum (total_weights weights_full) (vars shared_example)
                (\<lambda>T. sat T shared_example))
   \<and> weighted_model_count shared_example weights_full = Inr 1"
proof -
  have lits: "literals shared_example = {1, 2, - 1}"
    unfolding literals_filter subnodes_shared_example
    by (simp add: shared_example_def decision_node_def literal_node_def is_literal_def
          insert_commute)
  have c: "\<forall>l\<in>literals shared_example. weights_full l = Some (total_weights weights_full l)"
    by (simp add: lits total_weights_def weights_full_def)
  have l: "literals shared_example \<subseteq> dom weights_full"
    by (simp add: lits weights_full_def)
  have v: "weighted_model_count shared_example weights_full = Inr 1"
    by (simp add: weighted_model_count_def shared_example_def decision_node_def
          literal_node_def wmc_visit.simps weights_full_def is_false_def is_true_def
          is_literal_def is_decision_def)
  from wmc_is_model_count [OF unique_ids_shared_example four_variants_shared_example c]
    smooth_dd_shared_example unique_ids_shared_example four_variants_shared_example l v
  show ?thesis by simp
qed



end
